theory Spec2Isabelle
  imports Complex_Main "HOL-Library.Word" "HOL-Library.Multiset" "HOL-Library.AList" "HOL-Library.Sublist"
begin

unbundle bit_operations_syntax

section \<open>Core utilities (core/utils.cpp)\<close>

subsection \<open>IEEE doubles, as far as comparisons against constants need them\<close>

text \<open>
  A C++ \<open>double\<close> is a finite number, one of the two infinities, or a NaN. The finite
  doubles are embedded in the reals; the constants the code compares against (200, 800,
  2000) are exactly representable. Every comparison with a NaN operand is false.
\<close>

datatype double = Finite real | PosInf | NegInf | NaN

fun dless :: "double \<Rightarrow> double \<Rightarrow> bool" where
  "dless NaN _ = False"
| "dless _ NaN = False"
| "dless (Finite a) (Finite b) = (a < b)"
| "dless (Finite a) PosInf = True"
| "dless (Finite a) NegInf = False"
| "dless PosInf _ = False"
| "dless NegInf NegInf = False"
| "dless NegInf _ = True"

definition dgreater :: "double \<Rightarrow> double \<Rightarrow> bool" where
  "dgreater a b = dless b a"

subsection \<open>Tier classification\<close>

text \<open>
  \<^verbatim>\<open>
  std::string tier_for_latency(double latency_ms) {
      if (latency_ms < 200.0) return "gold";
      if (latency_ms < 800.0) return "silver";
      if (latency_ms > 2000.0) return "dead";
      return "silver";
  }
  \<close>
\<close>

definition tier_for_latency :: "double \<Rightarrow> string" where
  "tier_for_latency latency_ms =
     (if dless latency_ms (Finite 200) then ''gold''
      else if dless latency_ms (Finite 800) then ''silver''
      else if dgreater latency_ms (Finite 2000) then ''dead''
      else ''silver'')"

subsection \<open>First occurrences\<close>

text \<open>\<open>first_seen xs\<close> keeps the first occurrence of every element of \<open>xs\<close>, in order.\<close>

fun first_seen :: "'a list \<Rightarrow> 'a list" where
  "first_seen [] = []"
| "first_seen (x # xs) = x # filter (\<lambda>y. y \<noteq> x) (first_seen xs)"

subsection \<open>String utilities\<close>

text \<open>
  \<open>trim\<close> removes the characters of \<^verbatim>\<open>" \t\r\n"\<close> from both ends
  (\<open>find_first_not_of\<close> / \<open>find_last_not_of\<close> and \<open>substr\<close>).
\<close>

definition is_trim_char :: "char \<Rightarrow> bool" where
  "is_trim_char c = (c = CHR '' '' \<or> c = CHR 0x09 \<or> c = CHR 0x0D \<or> c = CHR 0x0A)"

definition trim :: "string \<Rightarrow> string" where
  "trim s = rev (dropWhile is_trim_char (rev (dropWhile is_trim_char s)))"

subsection \<open>File I/O\<close>

text \<open>
  A file is what the two stream constructors see: \<open>content\<close> is what an
  \<open>ifstream\<close> reads (\<open>None\<close>: the file cannot be opened, it does not exist), and
  \<open>appendable\<close> says whether \<open>ofstream(path, ios::app)\<close> opens (creating the file when
  it does not exist). The file system maps paths to files.
\<close>

record fentry =
  content :: "string option"
  appendable :: bool

type_synonym filesys = "string \<Rightarrow> fentry"

text \<open>
  The \<open>while (std::getline(file, line))\<close> loop: a line ends at a line feed (consumed) or
  at the end of the file; at the end of the file with no character extracted the loop
  stops. The first argument is the line read so far, reversed.
\<close>

fun getlines :: "string \<Rightarrow> string \<Rightarrow> string list" where
  "getlines cur [] = (if cur = [] then [] else [rev cur])"
| "getlines cur (c # cs) =
     (if c = CHR 0x0A then rev cur # getlines [] cs else getlines (c # cur) cs)"

definition read_lines :: "filesys \<Rightarrow> string \<Rightarrow> string list" where
  "read_lines fs path =
     (case content (fs path) of
        None \<Rightarrow> []
      | Some s \<Rightarrow> filter (\<lambda>l. l \<noteq> []) (map trim (getlines [] s)))"

text \<open>
  The second loop of \<open>append_unique_lines\<close>: \<open>existing\<close> grows with every line taken,
  \<open>new_lines\<close> is returned in input order.
\<close>

fun collect_new :: "string set \<Rightarrow> string list \<Rightarrow> string list" where
  "collect_new existing [] = []"
| "collect_new existing (line # lines) =
     (if line \<noteq> [] \<and> line \<notin> existing
      then line # collect_new (insert line existing) lines
      else collect_new existing lines)"

definition write_out :: "string list \<Rightarrow> string" where
  "write_out new_lines = concat (map (\<lambda>line. line @ [CHR 0x0A]) new_lines)"

definition append_unique_lines :: "filesys \<Rightarrow> string \<Rightarrow> string list \<Rightarrow> int \<times> filesys" where
  "append_unique_lines fs path lines =
     (let existing = set (read_lines fs path);
          new_lines = collect_new existing lines
      in if new_lines = [] then (0, fs)
         else if \<not> appendable (fs path) then (0, fs)
         else (int (length new_lines),
               fs(path := (fs path)\<lparr>content :=
                   Some ((case content (fs path) of None \<Rightarrow> [] | Some s \<Rightarrow> s) @ write_out new_lines)\<rparr>)))"

section \<open>Cache store (cache/cache.cpp)\<close>

text \<open>
  \<open>consecutive_failures_\<close> is a C++ \<open>int\<close>, a 32-bit word read as signed;
  \<open>last_successful_fetch_\<close> is an \<open>int64_t\<close> holding a clock reading.
\<close>

record SmartCache =
  cache_file :: string
  working_cache_file :: string
  base_dir :: string
  last_successful_fetch :: int
  consecutive_failures :: "32 word"

definition resolve_path :: "SmartCache \<Rightarrow> string \<Rightarrow> string" where
  "resolve_path c filename = (if base_dir c = [] then filename else base_dir c @ ''/'' @ filename)"

text \<open>\<open>now\<close> is the value \<open>now_ts()\<close> returns at the call.\<close>

definition save_configs ::
  "SmartCache \<Rightarrow> filesys \<Rightarrow> int \<Rightarrow> string list \<Rightarrow> bool \<Rightarrow> int \<times> SmartCache \<times> filesys" where
  "save_configs c fs now configs working =
     (let target = (if working then resolve_path c (working_cache_file c)
                    else resolve_path c (cache_file c));
          (appended, fs') = append_unique_lines fs target configs
      in if appended > 0
         then (appended, c\<lparr>last_successful_fetch := now, consecutive_failures := 0\<rparr>, fs')
         else (appended, c, fs'))"

definition record_failure :: "SmartCache \<Rightarrow> SmartCache" where
  "record_failure c = c\<lparr>consecutive_failures := consecutive_failures c + 1\<rparr>"

definition should_use_cache :: "SmartCache \<Rightarrow> bool" where
  "should_use_cache c = (2 \<le> sint (consecutive_failures c))"

definition get_failure_count :: "SmartCache \<Rightarrow> int" where
  "get_failure_count c = sint (consecutive_failures c)"

text \<open>
  Example file systems for the concrete evaluations below: every path holds the same
  file. \<open>terminated\<close> says that a file is missing, empty, or ends with a line feed, as
  every file written by \<open>append_unique_lines\<close> does.
\<close>

definition one_file :: "string option \<Rightarrow> bool \<Rightarrow> filesys" where
  "one_file d w = (\<lambda>p. \<lparr>content = d, appendable = w\<rparr>)"

definition terminated :: "string option \<Rightarrow> bool" where
  "terminated d = (case d of None \<Rightarrow> True | Some s \<Rightarrow> s = [] \<or> last s = CHR 0x0A)"

definition cache0 :: SmartCache where
  "cache0 = \<lparr>cache_file = ''subscriptions_cache.txt'',
     working_cache_file = ''working_configs_cache.txt'',
     base_dir = [], last_successful_fetch = 0, consecutive_failures = 5\<rparr>"

section \<open>Strings (core/utils.cpp)\<close>

subsection \<open>The \<open>std::string\<close> operations the code uses\<close>

text \<open>
  \<open>s.find(pat)\<close>: the first position at which \<open>pat\<close> occurs in \<open>s\<close>, \<open>None\<close> for
  \<open>npos\<close>. \<open>s.rfind(c)\<close>: the last position of the character \<open>c\<close>.
\<close>

fun starts_with :: "string \<Rightarrow> string \<Rightarrow> bool" where
  "starts_with s [] = True"
| "starts_with [] (p # ps) = False"
| "starts_with (c # cs) (p # ps) = (if c = p then starts_with cs ps else False)"

fun str_find :: "string \<Rightarrow> string \<Rightarrow> nat option" where
  "str_find [] pat = (if pat = [] then Some 0 else None)"
| "str_find (c # cs) pat =
     (if starts_with (c # cs) pat then Some 0 else map_option Suc (str_find cs pat))"

definition contains :: "string \<Rightarrow> string \<Rightarrow> bool" where
  "contains s pat = (str_find s pat \<noteq> None)"

fun rfind_char :: "string \<Rightarrow> char \<Rightarrow> nat option" where
  "rfind_char [] c = None"
| "rfind_char (x # xs) c =
     (case rfind_char xs c of
        Some i \<Rightarrow> Some (Suc i)
      | None \<Rightarrow> if x = c then Some 0 else None)"

text \<open>The value of a character as an unsigned byte.\<close>

definition byte :: "char \<Rightarrow> nat" where
  "byte c = of_char c"

text \<open>
  \<open>::tolower\<close> in the C locale maps \<open>A\<close>..\<open>Z\<close> (65..90) to \<open>a\<close>..\<open>z\<close> and
  nothing else.
\<close>

definition tolower :: "char \<Rightarrow> char" where
  "tolower c = (if 65 \<le> byte c \<and> byte c \<le> 90 then char_of (byte c + 32) else c)"

definition to_lower :: "string \<Rightarrow> string" where
  "to_lower s = map tolower s"

subsection \<open>Base64\<close>

text \<open>
  The table \<open>T\<close> of \<open>safe_b64decode\<close>: the index of a character of the standard alphabet,
  \<open>None\<close> for \<open>-1\<close>.
\<close>

definition b64_T :: "char \<Rightarrow> nat option" where
  "b64_T c =
     (if 65 \<le> byte c \<and> byte c \<le> 90 then Some (byte c - 65)
      else if 97 \<le> byte c \<and> byte c \<le> 122 then Some (byte c - 97 + 26)
      else if 48 \<le> byte c \<and> byte c \<le> 57 then Some (byte c - 48 + 52)
      else if c = CHR ''+'' then Some 62
      else if c = CHR ''/'' then Some 63
      else None)"

text \<open>
  The decoding loop. \<open>val\<close> is a 32-bit \<open>int\<close>: \<open>(val << 6) + d\<close> wraps around, and
  \<open>(val >> valb) & 0xFF\<close> reads bits \<open>valb\<close> to \<open>valb + 7\<close> (\<open>valb\<close> is 0, 2 or 4 there).
  \<open>valb\<close> is kept as an integer between -8 and 4.
\<close>

fun b64_loop :: "32 word \<Rightarrow> int \<Rightarrow> string \<Rightarrow> string" where
  "b64_loop val valb [] = []"
| "b64_loop val valb (c # cs) =
     (if c = CHR ''='' \<or> c = CHR 0x0A \<or> c = CHR 0x0D then []
      else case b64_T c of
             None \<Rightarrow> b64_loop val valb cs
           | Some d \<Rightarrow>
               let val' = push_bit 6 val + of_nat d;
                   valb' = valb + 6
               in if valb' \<ge> 0
                  then char_of (unat (signed_drop_bit (nat valb') val' AND 0xFF))
                       # b64_loop val' (valb' - 8) cs
                  else b64_loop val' valb' cs)"

text \<open>
  Padding with \<open>=\<close> to a multiple of four, then the URL-safe alphabet is mapped to the
  standard one, then the loop.
\<close>

definition b64_pad :: "string \<Rightarrow> string" where
  "b64_pad s = s @ replicate ((4 - length s mod 4) mod 4) (CHR ''='')"

definition b64_urlsafe :: "char \<Rightarrow> char" where
  "b64_urlsafe c = (if c = CHR ''-'' then CHR ''+'' else if c = CHR ''_'' then CHR ''/'' else c)"

definition safe_b64decode :: "string \<Rightarrow> string" where
  "safe_b64decode input = b64_loop 0 (-8) (map b64_urlsafe (b64_pad input))"

section \<open>Config analysis and prioritization (core/utils.cpp)\<close>

definition CDN_WHITELIST_DOMAINS :: "string list" where
  "CDN_WHITELIST_DOMAINS =
     [''cloudflare.com'', ''cdn.cloudflare.com'', ''cloudflare-dns.com'',
      ''fastly.net'', ''fastly.com'', ''global.fastly.net'',
      ''akamai.net'', ''akamaiedge.net'', ''akamaihd.net'',
      ''azureedge.net'', ''azure.com'', ''microsoft.com'',
      ''amazonaws.com'', ''cloudfront.net'', ''awsglobalaccelerator.com'',
      ''googleusercontent.com'', ''googleapis.com'', ''gstatic.com'',
      ''edgecastcdn.net'', ''stackpathdns.com'',
      ''cdn77.org'', ''cdnjs.cloudflare.com'',
      ''jsdelivr.net'', ''unpkg.com'',
      ''workers.dev'', ''pages.dev'',
      ''vercel.app'', ''netlify.app'',
      ''arvancloud.ir'', ''arvancloud.com'', ''r2.dev'',
      ''arvan.run'', ''arvanstorage.ir'', ''arvancdn.ir'',
      ''arvancdn.com'', ''cdn.arvancloud.ir'']"


definition is_cdn_based :: "string \<Rightarrow> bool" where
  "is_cdn_based uri =
     (let lower = to_lower uri
      in list_ex (\<lambda>domain. contains lower (to_lower domain)) CDN_WHITELIST_DOMAINS)"


definition is_ipv4_preferred :: "string \<Rightarrow> bool" where
  "is_ipv4_preferred uri = (\<not> (contains uri ''['' \<and> contains uri '']''))"

text \<open>
  The body of the loop of \<open>prioritize_configs\<close> for a URI that is not blocked: the number
  of the tier vector the URI is pushed to.
\<close>

definition tier_of :: "string \<Rightarrow> nat" where
  "tier_of uri =
     (let lower = to_lower uri;
          ipv4 = is_ipv4_preferred uri;
          cdn = is_cdn_based uri
      in if \<not> ipv4 then 7
         else if take 8 lower = ''vless://'' then
           (let reality = (contains lower ''reality'' \<or> contains lower ''pbk='');
                grpc = (contains lower ''grpc'' \<or> contains lower ''gun'');
                h2 = (contains lower ''h2'' \<or> contains lower ''http/2'');
                ws = (contains lower ''ws'' \<or> contains lower ''websocket'');
                tls443 = (contains uri '':443'' \<and>
                          (contains lower ''security=tls'' \<or> contains lower ''tls''))
            in if reality \<and> cdn then 1
               else if reality then 2
               else if grpc \<or> h2 then 3
               else if ws \<and> tls443 then 4
               else if tls443 then 6
               else 8)
         else if take 9 lower = ''trojan://'' then
           (let grpc = (contains lower ''grpc'' \<or> contains lower ''gun'');
                ws = (contains lower ''ws'' \<or> contains lower ''websocket'');
                port443 = contains uri '':443''
            in if grpc then 3
               else if ws \<and> port443 then 4
               else if port443 then 6
               else 8)
         else if take 8 lower = ''vmess://'' then
           (let payload = drop 8 uri;
                decoded = safe_b64decode payload;
                dl = to_lower decoded;
                ws_net = contains dl ''\"net\":\"ws\"'';
                tls_on = contains dl ''\"tls\":\"tls\"'';
                grpc_net = (contains dl ''\"net\":\"grpc\"'' \<or> contains dl ''\"net\":\"gun\"'');
                p443 = (contains dl ''\"port\":\"443\"'' \<or> contains dl ''\"port\":443'')
            in if grpc_net \<and> tls_on then 3
               else if ws_net \<and> tls_on \<and> cdn then 5
               else if ws_net \<and> tls_on \<and> p443 then 4
               else if tls_on \<and> p443 then 6
               else 8)
         else 8)"









section \<open>Exceptions\<close>

text \<open>
  The C++ exceptions the parsers can meet. A computation that can throw returns
  \<open>Inl e\<close>; \<open>bnd\<close> sequences two such computations, and \<open>catch_all m d\<close> is
  \<open>try { m } catch (...) { d }\<close>.
\<close>

datatype exn = out_of_range | invalid_argument | parse_error | type_error

definition bnd :: "exn + 'a \<Rightarrow> ('a \<Rightarrow> exn + 'b) \<Rightarrow> exn + 'b" where
  "bnd m f = (case m of Inl e \<Rightarrow> Inl e | Inr x \<Rightarrow> f x)"

definition catch_all :: "exn + 'a \<Rightarrow> 'a \<Rightarrow> 'a" where
  "catch_all m d = (case m of Inl e \<Rightarrow> d | Inr x \<Rightarrow> x)"

text \<open>\<open>s.substr(pos)\<close> and \<open>s.substr(pos, n)\<close> throw when \<open>pos\<close> is beyond the end.\<close>

definition substr :: "string \<Rightarrow> nat \<Rightarrow> exn + string" where
  "substr s pos = (if pos > length s then Inl out_of_range else Inr (drop pos s))"

definition substr_n :: "string \<Rightarrow> nat \<Rightarrow> nat \<Rightarrow> exn + string" where
  "substr_n s pos n = (if pos > length s then Inl out_of_range else Inr (take n (drop pos s)))"

subsection \<open>\<open>std::stoi\<close>\<close>

definition isdigit :: "char \<Rightarrow> bool" where
  "isdigit c = (48 \<le> byte c \<and> byte c \<le> 57)"

definition isspace :: "char \<Rightarrow> bool" where
  "isspace c = (byte c = 32 \<or> (9 \<le> byte c \<and> byte c \<le> 13))"

definition dec_value :: "string \<Rightarrow> int" where
  "dec_value ds = foldl (\<lambda>a c. a * 10 + (int (byte c) - 48)) 0 ds"

text \<open>
  \<open>std::stoi(s)\<close>: leading white space is skipped, then an optional sign and the longest
  run of decimal digits are read; without a digit it throws \<open>invalid_argument\<close>, with a
  value outside \<open>int\<close> it throws \<open>out_of_range\<close>. What follows the digits is ignored.
\<close>

definition stoi :: "string \<Rightarrow> exn + int" where
  "stoi s =
     (let s1 = dropWhile isspace s;
          neg = (s1 \<noteq> [] \<and> hd s1 = CHR ''-'');
          s2 = (if s1 \<noteq> [] \<and> (hd s1 = CHR ''-'' \<or> hd s1 = CHR ''+'') then tl s1 else s1);
          ds = takeWhile isdigit s2
      in if ds = [] then Inl invalid_argument
         else let v = (if neg then - dec_value ds else dec_value ds)
              in if v < - (2 ^ 31) \<or> v > 2 ^ 31 - 1 then Inl out_of_range else Inr v)"

section \<open>JSON values (nlohmann::json)\<close>

text \<open>
  A JSON value as the library holds it. \<open>JInt\<close> is an integer number (signed or unsigned
  64-bit), \<open>JFloat\<close> a floating-point number; an object is a list of key/value pairs read
  as a map (\<open>map_of\<close>).
\<close>

datatype json =
    JNull
  | JBool bool
  | JInt int
  | JFloat real
  | JString string
  | JArray "json list"
  | JObject "(string \<times> json) list"

text \<open>
  The library routines the repository does not contain are parameters of the model:
  \<^item> \<open>json_parse\<close> is \<open>nlohmann::json::parse\<close>, \<open>None\<close> when it throws a parse error;
  \<^item> \<open>hex_extract\<close> is the extraction \<open>iss >> std::hex >> hex\<close> from a string of two
    characters: the value read, \<open>None\<close> when the extraction fails;
  \<^item> \<open>float_to_int\<close> is \<open>static_cast<int>\<close> of a double whose truncation does not fit
    an \<open>int\<close>, which C++ leaves undefined;
  \<^item> \<open>str_hash\<close> is \<open>std::hash<std::string>\<close>, a \<open>size_t\<close>;
  \<^item> \<open>sort_by_latency\<close> is \<open>std::sort\<close> with the comparison of the latencies, which
    does not fix the order of equal elements.
\<close>

record lib =
  json_parse :: "string \<Rightarrow> json option"
  hex_extract :: "string \<Rightarrow> int option"
  float_to_int :: "real \<Rightarrow> int"
  str_hash :: "string \<Rightarrow> nat"
  sort_by_latency :: "(string \<times> double) list \<Rightarrow> (string \<times> double) list"

text \<open>\<open>j.contains(key)\<close>: false on everything that is not an object.\<close>

definition json_contains :: "json \<Rightarrow> string \<Rightarrow> bool" where
  "json_contains j key = (case j of JObject kvs \<Rightarrow> map_of kvs key \<noteq> None | _ \<Rightarrow> False)"

text \<open>
  \<open>j.value(key, default)\<close> with a string default: a type error when \<open>j\<close> is not an
  object or the value found is not a string.
\<close>

definition json_value :: "json \<Rightarrow> string \<Rightarrow> string \<Rightarrow> exn + string" where
  "json_value j key dflt =
     (case j of
        JObject kvs \<Rightarrow>
          (case map_of kvs key of
             None \<Rightarrow> Inr dflt
           | Some (JString s) \<Rightarrow> Inr s
           | Some _ \<Rightarrow> Inl type_error)
      | _ \<Rightarrow> Inl type_error)"

text \<open>
  \<open>j[key]\<close> on a non-const value, read: a missing key yields null (the library inserts
  it, and turns a null \<open>j\<close> into an object; no later read of the parsers sees that), every
  other kind of value is a type error.
\<close>

definition json_index :: "json \<Rightarrow> string \<Rightarrow> exn + json" where
  "json_index j key =
     (case j of
        JObject kvs \<Rightarrow> Inr (case map_of kvs key of None \<Rightarrow> JNull | Some v \<Rightarrow> v)
      | JNull \<Rightarrow> Inr JNull
      | _ \<Rightarrow> Inl type_error)"

definition is_number :: "json \<Rightarrow> bool" where
  "is_number j = (case j of JInt n \<Rightarrow> True | JFloat r \<Rightarrow> True | _ \<Rightarrow> False)"

definition is_string :: "json \<Rightarrow> bool" where
  "is_string j = (case j of JString s \<Rightarrow> True | _ \<Rightarrow> False)"

text \<open>
  \<open>get<int>()\<close> on a number: the 64-bit integer is cut to 32 bits and read as signed; a
  double is truncated towards zero.
\<close>

definition get_int :: "lib \<Rightarrow> json \<Rightarrow> int" where
  "get_int L j =
     (case j of
        JInt n \<Rightarrow> sint (word_of_int n :: 32 word)
      | JFloat r \<Rightarrow>
          (if - (2 ^ 31) - 1 < r \<and> r < 2 ^ 31
           then (if r < 0 then \<lceil>r\<rceil> else \<lfloor>r\<rfloor>)
           else float_to_int L r)
      | _ \<Rightarrow> 0)"

definition get_string :: "json \<Rightarrow> string" where
  "get_string j = (case j of JString s \<Rightarrow> s | _ \<Rightarrow> [])"

section \<open>Parsed configurations (core/models.h)\<close>

text \<open>The fields carry the prefix \<open>cfg_\<close> to keep them apart from variables.\<close>

record HunterParsedConfig =
  cfg_uri :: string
  cfg_outbound :: json
  cfg_host :: string
  cfg_port :: int
  cfg_identity :: string
  cfg_ps :: string

section \<open>URI parsers (parsers/uri\_parser.cpp)\<close>

subsection \<open>String helpers of utils.cpp used by the parsers\<close>

text \<open>
  \<open>url_decode\<close>: \<open>%\<close> followed by at least two characters is replaced by the character
  whose code the hexadecimal extraction reads from those two (both are consumed), unless the
  extraction fails; \<open>+\<close> becomes a space.
\<close>

fun url_decode :: "lib \<Rightarrow> string \<Rightarrow> string" where
  "url_decode L [] = []"
| "url_decode L (c # rest) =
     (if c = CHR ''%'' then
        (case rest of
           a # b # rest' \<Rightarrow>
             (case hex_extract L [a, b] of
                Some hex \<Rightarrow> char_of (nat (hex mod 256)) # url_decode L rest'
              | None \<Rightarrow> c # url_decode L rest)
         | _ \<Rightarrow> c # url_decode L rest)
      else if c = CHR ''+'' then CHR '' '' # url_decode L rest
      else c # url_decode L rest)"

definition clean_ps_string :: "string \<Rightarrow> string" where
  "clean_ps_string s =
     (let result = trim (filter (\<lambda>c. byte c \<le> 0x7F \<and> byte c \<ge> 0x20) s)
      in if result = [] then ''Unknown'' else result)"

subsection \<open>URL parsing helpers\<close>

text \<open>The fields carry the prefix \<open>url_\<close>.\<close>

record ParsedURL =
  url_scheme :: string
  url_username :: string
  url_hostname :: string
  url_port :: int
  url_path :: string
  url_query :: string
  url_fragment :: string

text \<open>
  \<open>parse_url\<close>, statement by statement. Every \<open>substr\<close> position comes from a \<open>find\<close>
  on the same string, so it is within the string and \<open>substr\<close> is \<open>take\<close>/\<open>drop\<close>.
\<close>

definition parse_url :: "lib \<Rightarrow> string \<Rightarrow> ParsedURL" where
  "parse_url L url =
     (let result0 = \<lparr>url_scheme = [], url_username = [], url_hostname = [], url_port = 0,
                      url_path = [], url_query = [], url_fragment = []\<rparr>;
          (result1, remaining1) =
            (case str_find url ''://'' of
               Some scheme_end \<Rightarrow> (result0\<lparr>url_scheme := take scheme_end url\<rparr>, drop (scheme_end + 3) url)
             | None \<Rightarrow> (result0, url));
          (result2, remaining2) =
            (case str_find remaining1 ''#'' of
               Some frag_pos \<Rightarrow>
                 (result1\<lparr>url_fragment := url_decode L (drop (frag_pos + 1) remaining1)\<rparr>,
                  take frag_pos remaining1)
             | None \<Rightarrow> (result1, remaining1));
          (result3, remaining3) =
            (case str_find remaining2 ''?'' of
               Some query_pos \<Rightarrow>
                 (result2\<lparr>url_query := drop (query_pos + 1) remaining2\<rparr>, take query_pos remaining2)
             | None \<Rightarrow> (result2, remaining2));
          (result4, remaining4) =
            (case str_find remaining3 ''/'' of
               Some path_pos \<Rightarrow>
                 (result3\<lparr>url_path := drop path_pos remaining3\<rparr>, take path_pos remaining3)
             | None \<Rightarrow> (result3, remaining3));
          (result5, remaining5) =
            (case str_find remaining4 ''@'' of
               Some at_pos \<Rightarrow>
                 (result4\<lparr>url_username := url_decode L (take at_pos remaining4)\<rparr>,
                  drop (at_pos + 1) remaining4)
             | None \<Rightarrow> (result4, remaining4))
      in if remaining5 \<noteq> [] \<and> hd remaining5 = CHR ''['' then
           (case str_find remaining5 '']'' of
              Some bracket_end \<Rightarrow>
                (let result6 = result5\<lparr>url_hostname := take (bracket_end - 1) (drop 1 remaining5)\<rparr>;
                     remaining6 = drop (bracket_end + 1) remaining5
                 in if remaining6 \<noteq> [] \<and> hd remaining6 = CHR '':''
                    then (case stoi (drop 1 remaining6) of
                            Inr p \<Rightarrow> result6\<lparr>url_port := p\<rparr>
                          | Inl e \<Rightarrow> result6)
                    else result6)
            | None \<Rightarrow> result5)
         else
           (case rfind_char remaining5 (CHR '':'') of
              Some colon_pos \<Rightarrow>
                (case stoi (drop (colon_pos + 1) remaining5) of
                   Inr p \<Rightarrow> result5\<lparr>url_hostname := take colon_pos remaining5, url_port := p\<rparr>
                 | Inl e \<Rightarrow> result5\<lparr>url_hostname := remaining5\<rparr>)
            | None \<Rightarrow> result5\<lparr>url_hostname := remaining5\<rparr>))"

text \<open>
  The \<open>std::getline(ss, pair, delim)\<close> loop: the pieces between delimiters; a final empty
  piece is not produced.
\<close>

fun split_delim :: "char \<Rightarrow> string \<Rightarrow> string \<Rightarrow> string list" where
  "split_delim d cur [] = (if cur = [] then [] else [rev cur])"
| "split_delim d cur (c # cs) =
     (if c = d then rev cur # split_delim d [] cs else split_delim d (c # cur) cs)"

text \<open>The \<open>unordered_map\<close> of the query parameters, as a list of pairs read as a map.\<close>

definition parse_query_string :: "lib \<Rightarrow> string \<Rightarrow> (string \<times> string) list" where
  "parse_query_string L q =
     foldl (\<lambda>params pair.
              case str_find pair ''='' of
                Some eq \<Rightarrow> AList.update (url_decode L (take eq pair))
                                        (url_decode L (drop (eq + 1) pair)) params
              | None \<Rightarrow> params)
       [] (split_delim (CHR ''&'') [] q)"

definition get_param :: "(string \<times> string) list \<Rightarrow> string \<Rightarrow> string \<Rightarrow> string" where
  "get_param params key default_val =
     (case map_of params key of Some v \<Rightarrow> v | None \<Rightarrow> default_val)"

subsection \<open>VMess\<close>

text \<open>
  The port and the alter id are read the same way: a number through \<open>get<int>()\<close>, a
  string through \<open>std::stoi\<close> inside its own \<open>try\<close> (0 when it throws), anything else 0.
\<close>

definition json_int_field :: "lib \<Rightarrow> json \<Rightarrow> int" where
  "json_int_field L v =
     (if is_number v then get_int L v
      else if is_string v then catch_all (stoi (get_string v)) 0
      else 0)"

definition vmess_alter_id :: "lib \<Rightarrow> json \<Rightarrow> exn + int" where
  "vmess_alter_id L j =
     (if json_contains j ''aid''
      then bnd (json_index j ''aid'') (\<lambda>aid. Inr (json_int_field L aid))
      else Inr 0)"

definition vmess_outbound :: "json \<Rightarrow> string \<Rightarrow> int \<Rightarrow> string \<Rightarrow> int \<Rightarrow> exn + json" where
  "vmess_outbound j host port uuid alter_id =
     bnd (json_value j ''scy'' ''auto'') (\<lambda>scy.
     bnd (json_value j ''net'' ''tcp'') (\<lambda>net.
     bnd (json_value j ''tls'' ''none'') (\<lambda>tls.
     let stream0 = [(''network'', JString net), (''security'', JString tls)] in
     bnd (json_value j ''net'' []) (\<lambda>net'.
     bnd (if net' = ''ws''
          then bnd (json_value j ''path'' ''/'') (\<lambda>p.
               bnd (json_value j ''host'' []) (\<lambda>h.
               Inr (AList.update ''wsSettings''
                      (JObject [(''path'', JString p),
                                (''headers'', JObject [(''Host'', JString h)])]) stream0)))
          else Inr stream0) (\<lambda>stream1.
     bnd (json_value j ''tls'' []) (\<lambda>tls'.
     bnd (if tls' = ''tls''
          then bnd (json_value j ''sni'' host) (\<lambda>sni.
               Inr (AList.update ''tlsSettings''
                      (JObject [(''serverName'', JString sni),
                                (''allowInsecure'', JBool False)]) stream1))
          else Inr stream1) (\<lambda>stream2.
     Inr (JObject
       [(''protocol'', JString ''vmess''),
        (''settings'', JObject
           [(''vnext'', JArray [JObject
              [(''address'', JString host),
               (''port'', JInt port),
               (''users'', JArray [JObject
                  [(''id'', JString uuid),
                   (''alterId'', JInt alter_id),
                   (''security'', JString scy)]])]])]),
        (''streamSettings'', JObject stream2)]))))))))"

text \<open>The body of the \<open>try\<close> block of \<open>VMessParser::parse\<close>.\<close>

definition VMessParser_body :: "lib \<Rightarrow> string \<Rightarrow> exn + HunterParsedConfig option" where
  "VMessParser_body L uri =
     (if length uri < 9 then Inr None
      else
        bnd (substr uri 8) (\<lambda>payload.
        let decoded = safe_b64decode payload in
        bnd (case json_parse L decoded of None \<Rightarrow> Inl parse_error | Some j \<Rightarrow> Inr j) (\<lambda>j.
        bnd (json_value j ''add'' []) (\<lambda>host.
        bnd (json_index j ''port'') (\<lambda>jport.
        let port = json_int_field L jport in
        bnd (json_value j ''id'' []) (\<lambda>uuid.
        bnd (json_value j ''ps'' ''Unknown'') (\<lambda>ps0.
        let ps = clean_ps_string ps0 in
        if host = [] \<or> port = 0 \<or> uuid = [] \<or> host = ''0.0.0.0'' then Inr None
        else
          bnd (vmess_alter_id L j) (\<lambda>alter_id.
          bnd (vmess_outbound j host port uuid alter_id) (\<lambda>outbound.
          Inr (Some \<lparr>cfg_uri = uri, cfg_outbound = outbound, cfg_host = host,
                      cfg_port = port, cfg_identity = uuid, cfg_ps = ps\<rparr>))))))))))"

text \<open>\<open>try { ... } catch (...) { return std::nullopt; }\<close>\<close>

definition VMessParser_parse :: "lib \<Rightarrow> string \<Rightarrow> HunterParsedConfig option" where
  "VMessParser_parse L uri = catch_all (VMessParser_body L uri) None"

subsection \<open>VLESS\<close>

definition vless_outbound ::
  "(string \<times> string) list \<Rightarrow> string \<Rightarrow> int \<Rightarrow> string \<Rightarrow> json" where
  "vless_outbound params host port uuid =
     (let security = get_param params ''security'' ''none'';
          transport = get_param params ''type'' ''tcp'';
          encryption = get_param params ''encryption'' ''none'';
          stream0 = [(''network'', JString transport), (''security'', JString security)];
          stream1 =
            (if security = ''tls'' \<or> security = ''reality'' then
               (let base_settings = [(''serverName'', JString (get_param params ''sni'' host)),
                                     (''allowInsecure'', JBool False)]
                in if security = ''reality''
                   then AList.update ''realitySettings''
                          (JObject
                             (AList.update ''shortId'' (JString (get_param params ''sid'' []))
                             (AList.update ''publicKey'' (JString (get_param params ''pbk'' []))
                             (AList.update ''fingerprint'' (JString (get_param params ''fp'' ''chrome''))
                                base_settings))))
                          stream0
                   else AList.update ''tlsSettings'' (JObject base_settings) stream0)
             else stream0);
          stream2 =
            (if transport = ''ws''
             then AList.update ''wsSettings''
                    (JObject [(''path'', JString (get_param params ''path'' ''/'')),
                              (''headers'', JObject [(''Host'', JString (get_param params ''host'' []))])])
                    stream1
             else if transport = ''grpc''
             then AList.update ''grpcSettings''
                    (JObject [(''serviceName'', JString (get_param params ''serviceName'' []))])
                    stream1
             else stream1)
      in JObject
           [(''protocol'', JString ''vless''),
            (''settings'', JObject
               [(''vnext'', JArray [JObject
                  [(''address'', JString host),
                   (''port'', JInt port),
                   (''users'', JArray [JObject
                      [(''id'', JString uuid),
                       (''encryption'', JString encryption)]])]])]),
            (''streamSettings'', JObject stream2)])"

definition VLESSParser_body :: "lib \<Rightarrow> string \<Rightarrow> exn + HunterParsedConfig option" where
  "VLESSParser_body L uri =
     (let parsed = parse_url L uri;
          params = parse_query_string L (url_query parsed);
          uuid = url_username parsed;
          host = url_hostname parsed;
          port = (if url_port parsed > 0 then url_port parsed else 443);
          ps = clean_ps_string (if url_fragment parsed = [] then ''Unknown'' else url_fragment parsed)
      in if host = [] \<or> uuid = [] \<or> host = ''0.0.0.0'' then Inr None
         else Inr (Some \<lparr>cfg_uri = uri, cfg_outbound = vless_outbound params host port uuid,
                          cfg_host = host, cfg_port = port, cfg_identity = uuid, cfg_ps = ps\<rparr>))"

definition VLESSParser_parse :: "lib \<Rightarrow> string \<Rightarrow> HunterParsedConfig option" where
  "VLESSParser_parse L uri = catch_all (VLESSParser_body L uri) None"

subsection \<open>Trojan\<close>

definition trojan_outbound ::
  "(string \<times> string) list \<Rightarrow> string \<Rightarrow> int \<Rightarrow> string \<Rightarrow> json" where
  "trojan_outbound params host port password =
     (let transport = get_param params ''type'' ''tcp'';
          allow_insecure = (get_param params ''allowInsecure'' ''0'' = ''1'')
      in JObject
           [(''protocol'', JString ''trojan''),
            (''settings'', JObject
               [(''servers'', JArray [JObject
                  [(''address'', JString host),
                   (''port'', JInt port),
                   (''password'', JString password)]])]),
            (''streamSettings'', JObject
               [(''network'', JString transport),
                (''security'', JString ''tls''),
                (''tlsSettings'', JObject
                   [(''serverName'', JString (get_param params ''sni'' host)),
                    (''allowInsecure'', JBool allow_insecure)])])])"

definition TrojanParser_body :: "lib \<Rightarrow> string \<Rightarrow> exn + HunterParsedConfig option" where
  "TrojanParser_body L uri =
     (let parsed = parse_url L uri;
          params = parse_query_string L (url_query parsed);
          password = url_username parsed;
          host = url_hostname parsed;
          port = (if url_port parsed > 0 then url_port parsed else 443);
          ps = clean_ps_string (if url_fragment parsed = [] then ''Unknown'' else url_fragment parsed)
      in if host = [] \<or> password = [] \<or> host = ''0.0.0.0'' then Inr None
         else Inr (Some \<lparr>cfg_uri = uri, cfg_outbound = trojan_outbound params host port password,
                          cfg_host = host, cfg_port = port, cfg_identity = password, cfg_ps = ps\<rparr>))"

definition TrojanParser_parse :: "lib \<Rightarrow> string \<Rightarrow> HunterParsedConfig option" where
  "TrojanParser_parse L uri = catch_all (TrojanParser_body L uri) None"

subsection \<open>Shadowsocks\<close>

definition shadowsocks_outbound :: "string \<Rightarrow> int \<Rightarrow> string \<Rightarrow> string \<Rightarrow> json" where
  "shadowsocks_outbound host port method password =
     JObject
       [(''protocol'', JString ''shadowsocks''),
        (''settings'', JObject
           [(''servers'', JArray [JObject
              [(''address'', JString host),
               (''port'', JInt port),
               (''method'', JString method),
               (''password'', JString password)]])])]"

text \<open>
  The method and password: first from the base64-decoded user info, then, when either is
  empty, from the plain user info; \<open>None\<close> when that has no colon.
\<close>

definition ss_credentials :: "string \<Rightarrow> (string \<times> string) option" where
  "ss_credentials userinfo =
     (let decoded = safe_b64decode userinfo;
          (method, password) =
            (case str_find decoded '':'' of
               Some colon \<Rightarrow> (take colon decoded, drop (colon + 1) decoded)
             | None \<Rightarrow> ([], []))
      in if method = [] \<or> password = [] then
           (case str_find userinfo '':'' of
              Some colon \<Rightarrow> Some (take colon userinfo, drop (colon + 1) userinfo)
            | None \<Rightarrow> None)
         else Some (method, password))"

text \<open>
  The end of the \<open>try\<close> block of \<open>ShadowsocksParser::parse\<close>, from
  \<open>hostport.rfind(':')\<close> on. The \<open>rfind\<close> follows a successful \<open>find(':')\<close>; at
  \<open>npos\<close> the two \<open>substr\<close> calls would both return the whole string.
\<close>

definition ss_build ::
  "string \<Rightarrow> string \<Rightarrow> string \<Rightarrow> string \<Rightarrow> string \<Rightarrow> exn + HunterParsedConfig option" where
  "ss_build uri ps hostport method password =
     (let (host, port_str) =
            (case rfind_char hostport (CHR '':'') of
               Some last_colon \<Rightarrow> (take last_colon hostport, drop (last_colon + 1) hostport)
             | None \<Rightarrow> (hostport, hostport));
          port_digits = takeWhile isdigit port_str
      in case stoi port_digits of
           Inl e \<Rightarrow> Inr None
         | Inr port \<Rightarrow>
             if host = [] \<or> port = 0 \<or> host = ''0.0.0.0'' then Inr None
             else Inr (Some
               \<lparr>cfg_uri = uri,
                cfg_outbound = shadowsocks_outbound host port method password,
                cfg_host = host, cfg_port = port,
                cfg_identity = method @ '':'' @ password,
                cfg_ps = ps\<rparr>))"

text \<open>The body of the \<open>try\<close> block of \<open>ShadowsocksParser::parse\<close>.\<close>

definition ShadowsocksParser_body :: "lib \<Rightarrow> string \<Rightarrow> exn + HunterParsedConfig option" where
  "ShadowsocksParser_body L uri =
     (let (ps, parsed_uri) =
            (case str_find uri ''#'' of
               Some hash_pos \<Rightarrow>
                 (clean_ps_string (url_decode L (drop (hash_pos + 1) uri)), take hash_pos uri)
             | None \<Rightarrow> (''Unknown'', uri))
      in bnd (substr parsed_uri 5) (\<lambda>core0.
         let core1 = (case str_find core0 ''?'' of
                        Some q_pos \<Rightarrow> take q_pos core0
                      | None \<Rightarrow> core0);
             core2 = (if \<not> contains core1 ''@'' then safe_b64decode core1 else core1)
         in case str_find core2 ''@'' of
              None \<Rightarrow> Inr None
            | Some at_pos \<Rightarrow>
                (let userinfo = take at_pos core2;
                     hostport = drop (at_pos + 1) core2
                 in if \<not> contains hostport '':'' then Inr None
                    else case ss_credentials userinfo of
                           None \<Rightarrow> Inr None
                         | Some (method, password) \<Rightarrow>
                             ss_build uri ps hostport method password)))"

definition ShadowsocksParser_parse :: "lib \<Rightarrow> string \<Rightarrow> HunterParsedConfig option" where
  "ShadowsocksParser_parse L uri = catch_all (ShadowsocksParser_body L uri) None"

subsection \<open>The universal parser\<close>

text \<open>\<open>UniversalParser::parse\<close> has no \<open>try\<close> block of its own.\<close>

definition UniversalParser_parse :: "lib \<Rightarrow> string \<Rightarrow> exn + HunterParsedConfig option" where
  "UniversalParser_parse L uri =
     (if uri = [] \<or> str_find uri ''://'' = None then Inr None
      else
        (case str_find uri ''://'' of
           None \<Rightarrow> Inr None
         | Some scheme_end \<Rightarrow>
             bnd (substr_n uri 0 scheme_end) (\<lambda>s.
             let proto = to_lower s
             in if proto = ''vmess'' then Inr (VMessParser_parse L uri)
                else if proto = ''vless'' then Inr (VLESSParser_parse L uri)
                else if proto = ''trojan'' then Inr (TrojanParser_parse L uri)
                else if proto = ''ss'' \<or> proto = ''shadowsocks'' then Inr (ShadowsocksParser_parse L uri)
                else Inr None)))"

text \<open>
  Library instances for the concrete evaluations. \<open>hex_digits\<close> reads two hexadecimal
  digits. \<open>example_lib\<close> parses two JSON texts, the payloads of the VMess URIs
  \<open>example_vmess\<close> and \<open>example_vmess_neg\<close>, and rejects every other text; its hash is
  the length of the string and its sort leaves the list as it is.
\<close>

definition hex_digit :: "char \<Rightarrow> int option" where
  "hex_digit c =
     (if isdigit c then Some (int (byte c) - 48)
      else if 97 \<le> byte c \<and> byte c \<le> 102 then Some (int (byte c) - 87)
      else if 65 \<le> byte c \<and> byte c \<le> 70 then Some (int (byte c) - 55)
      else None)"

definition hex_digits :: "string \<Rightarrow> int option" where
  "hex_digits s =
     (case s of
        [a, b] \<Rightarrow> (case (hex_digit a, hex_digit b) of
                     (Some x, Some y) \<Rightarrow> Some (16 * x + y)
                   | _ \<Rightarrow> None)
      | _ \<Rightarrow> None)"

definition example_vmess :: string where
  "example_vmess = ''vmess://eyJhZGQiOiIxLjEuMS4xIiwicG9ydCI6NDQzLCJpZCI6IjU1NTUtNTU1NS01NTU1LTU1NTUiLCJwcyI6Ik5vZGUiLCJuZXQiOiJ3cyIsInRscyI6InRscyIsInBhdGgiOiIvYWJjIiwiaG9zdCI6ImV4LmNvbSJ9''"

definition example_text :: string where
  "example_text = ''{\"add\":\"1.1.1.1\",\"port\":443,\"id\":\"5555-5555-5555-5555\",\"ps\":\"Node\",\"net\":\"ws\",\"tls\":\"tls\",\"path\":\"/abc\",\"host\":\"ex.com\"}''"

definition example_json :: json where
  "example_json = JObject
     [(''add'', JString ''1.1.1.1''), (''port'', JInt 443), (''id'', JString ''5555-5555-5555-5555''),
      (''ps'', JString ''Node''), (''net'', JString ''ws''), (''tls'', JString ''tls''),
      (''path'', JString ''/abc''), (''host'', JString ''ex.com'')]"

definition example_vmess_neg :: string where
  "example_vmess_neg = ''vmess://eyJhZGQiOiJoIiwicG9ydCI6LTEsImlkIjoieCJ9''"

definition example_text_neg :: string where
  "example_text_neg = ''{\"add\":\"h\",\"port\":-1,\"id\":\"x\"}''"

definition example_json_neg :: json where
  "example_json_neg = JObject [(''add'', JString ''h''), (''port'', JInt (- 1)), (''id'', JString ''x'')]"

definition example_lib :: lib where
  "example_lib =
     \<lparr>json_parse = (\<lambda>s. if s = example_text then Some example_json
                         else if s = example_text_neg then Some example_json_neg
                         else None),
      hex_extract = hex_digits,
      float_to_int = (\<lambda>r. 0),
      str_hash = length,
      sort_by_latency = (\<lambda>cs. cs)\<rparr>"

section \<open>Obfuscation (security/obfuscation.cpp)\<close>

subsection \<open>Writing into a JSON value\<close>

text \<open>
  \<open>j[key] = v\<close> on a non-const value: a null \<open>j\<close> becomes an object first, an object
  gets the key inserted or overwritten, every other kind of value is a type error.
\<close>

definition json_set :: "json \<Rightarrow> string \<Rightarrow> json \<Rightarrow> exn + json" where
  "json_set j key v =
     (case j of
        JNull \<Rightarrow> Inr (JObject [(key, v)])
      | JObject kvs \<Rightarrow> Inr (JObject (AList.update key v kvs))
      | _ \<Rightarrow> Inl type_error)"

text \<open>
  \<open>auto& x = j[key];\<close> followed by statements that modify \<open>x\<close> in place: the value
  at \<open>key\<close> is read, modified by \<open>f\<close>, and is then the value at \<open>key\<close>.
\<close>

definition json_update_in :: "json \<Rightarrow> string \<Rightarrow> (json \<Rightarrow> exn + json) \<Rightarrow> exn + json" where
  "json_update_in j key f =
     bnd (json_index j key) (\<lambda>x. bnd (f x) (\<lambda>x'. json_set j key x'))"


subsection \<open>\<open>StealthObfuscationEngine\<close>\<close>


text \<open>
  \<open>current_sni_index_\<close> is a \<open>size_t\<close>; the two counters of \<open>stats_\<close> are fields
  here.
\<close>

record StealthObfuscationEngine =
  enabled :: bool
  current_sni_index :: nat
  cdn_whitelist :: "string list"
  configs_obfuscated :: int
  sni_rotations :: int


definition get_current_sni :: "StealthObfuscationEngine \<Rightarrow> string" where
  "get_current_sni e =
     (if cdn_whitelist e = [] then ''cdn.cloudflare.com''
      else cdn_whitelist e ! (current_sni_index e mod length (cdn_whitelist e)))"

text \<open>The three rewrites of \<open>apply_obfuscation_to_config\<close>, each on \<open>settings\<close>.\<close>

definition rewrite_tls :: "string \<Rightarrow> json \<Rightarrow> exn + json" where
  "rewrite_tls sni settings =
     (if json_contains settings ''tlsSettings''
      then json_update_in settings ''tlsSettings''
             (\<lambda>tls. json_set tls ''serverName'' (JString sni))
      else Inr settings)"

definition rewrite_grpc :: "string \<Rightarrow> json \<Rightarrow> exn + json" where
  "rewrite_grpc sni settings =
     (if json_contains settings ''grpcSettings''
      then json_update_in settings ''grpcSettings''
             (\<lambda>grpc. json_set grpc ''authority'' (JString sni))
      else Inr settings)"

definition rewrite_ws :: "string \<Rightarrow> json \<Rightarrow> exn + json" where
  "rewrite_ws sni settings =
     (if json_contains settings ''wsSettings''
      then json_update_in settings ''wsSettings''
             (\<lambda>ws. bnd (if \<not> json_contains ws ''headers''
                         then json_set ws ''headers'' (JObject [])
                         else Inr ws)
                   (\<lambda>ws'. json_update_in ws' ''headers''
                            (\<lambda>headers. json_set headers ''Host'' (JString sni))))
      else Inr settings)"

text \<open>
  \<open>apply_obfuscation_to_config\<close> returns the rewritten outbound and counts it in the
  (mutable) statistics; a type error of the JSON library leaves the function as an
  exception.
\<close>

definition apply_obfuscation_to_config ::
  "StealthObfuscationEngine \<Rightarrow> json \<Rightarrow> exn + json \<times> StealthObfuscationEngine" where
  "apply_obfuscation_to_config e outbound =
     (if \<not> enabled e \<or> \<not> json_contains outbound ''streamSettings'' then Inr (outbound, e)
      else
        let sni = get_current_sni e in
        bnd (json_update_in outbound ''streamSettings''
               (\<lambda>settings.
                  bnd (rewrite_tls sni settings) (\<lambda>settings1.
                  bnd (rewrite_grpc sni settings1) (\<lambda>settings2.
                  rewrite_ws sni settings2))))
            (\<lambda>conf. Inr (conf, e\<lparr>configs_obfuscated := configs_obfuscated e + 1\<rparr>)))"






section \<open>URI extraction (core/utils.cpp)\<close>

subsection \<open>The two regular expressions\<close>












subsection \<open>\<open>std::set<std::string>\<close>\<close>




subsection \<open>\<open>extract_raw_uris_from_text\<close>\<close>






section \<open>Channel scraper (telegram/scraper.cpp)\<close>


record scrape_state =
  configs :: "string set"
  consecutive_errors :: int
  fetch_log :: "(string \<times> bool) list"




text \<open>
  \<open>std::max(1, std::min(200, limit * 4))\<close>; the product is a 32-bit \<open>int\<close> (\<open>int32\<close> is
  the wrap-around of the target).
\<close>

definition int32 :: "int \<Rightarrow> int" where
  "int32 x = sint (word_of_int x :: 32 word)"










section \<open>Load balancer (proxy/load\_balancer.cpp)\<close>

subsection \<open>Serialising a configuration\<close>

text \<open>
  Well-formed UTF-8, on the bytes of a string: one byte below 0x80, or a lead byte
  0xC2..0xF4 with its continuation bytes, without overlong forms, surrogates and code
  points above U+10FFFF.
\<close>

definition utf8_cont :: "nat \<Rightarrow> bool" where
  "utf8_cont x = (128 \<le> x \<and> x \<le> 191)"

fun utf8_valid :: "nat list \<Rightarrow> bool" where
  "utf8_valid [] = True"
| "utf8_valid [a] = (a < 128)"
| "utf8_valid [a, b] =
     (if a < 128 then utf8_valid [b] else 194 \<le> a \<and> a \<le> 223 \<and> utf8_cont b)"
| "utf8_valid [a, b, c] =
     (if a < 128 then utf8_valid [b, c]
      else if 194 \<le> a \<and> a \<le> 223 then utf8_cont b \<and> utf8_valid [c]
      else if a = 224 then 160 \<le> b \<and> b \<le> 191 \<and> utf8_cont c
      else if a = 237 then 128 \<le> b \<and> b \<le> 159 \<and> utf8_cont c
      else 225 \<le> a \<and> a \<le> 239 \<and> utf8_cont b \<and> utf8_cont c)"
| "utf8_valid (a # b # c # d # rest) =
     (if a < 128 then utf8_valid (b # c # d # rest)
      else if 194 \<le> a \<and> a \<le> 223 then utf8_cont b \<and> utf8_valid (c # d # rest)
      else if a = 224 then 160 \<le> b \<and> b \<le> 191 \<and> utf8_cont c \<and> utf8_valid (d # rest)
      else if a = 237 then 128 \<le> b \<and> b \<le> 159 \<and> utf8_cont c \<and> utf8_valid (d # rest)
      else if 225 \<le> a \<and> a \<le> 239 then utf8_cont b \<and> utf8_cont c \<and> utf8_valid (d # rest)
      else if a = 240 then 144 \<le> b \<and> b \<le> 191 \<and> utf8_cont c \<and> utf8_cont d \<and> utf8_valid rest
      else if a = 244 then 128 \<le> b \<and> b \<le> 143 \<and> utf8_cont c \<and> utf8_cont d \<and> utf8_valid rest
      else 241 \<le> a \<and> a \<le> 243 \<and> utf8_cont b \<and> utf8_cont c \<and> utf8_cont d \<and> utf8_valid rest)"

fun json_utf8 :: "json \<Rightarrow> bool" where
  "json_utf8 (JString s) = utf8_valid (map byte s)"
| "json_utf8 (JArray xs) = list_all json_utf8 xs"
| "json_utf8 (JObject kvs) = list_all (\<lambda>kv. utf8_valid (map byte (fst kv)) \<and> json_utf8 (snd kv)) kvs"
| "json_utf8 JNull = True"
| "json_utf8 (JBool v) = True"
| "json_utf8 (JInt n) = True"
| "json_utf8 (JFloat r) = True"

text \<open>
  \<open>j.dump()\<close> and \<open>j.dump(2)\<close> of the JSON library, from its documentation: with the
  default (strict) error handler the call throws a type error (316) when a string or a key
  of the value is not valid UTF-8, and returns the text otherwise. The text is a function
  of the value; the model hands on the value in its place.
\<close>

definition json_dump :: "json \<Rightarrow> exn + json" where
  "json_dump j = (if json_utf8 j then Inr j else Inl type_error)"

subsection \<open>The engine hooks and what they do\<close>

text \<open>
  The three hooks are host callbacks (\<open>std::function\<close> members, possibly empty). They are
  functions of the number of engine events so far, so that two calls with the same
  arguments may answer differently; the start and test hooks return a value, the stop hook
  is either installed or not. The start hook takes the serialised configuration. The hooks
  of the repository (hunter\_jni.cpp) do not throw, and the three are installed together.

  \<open>events\<close> is not a variable of the code: it records every call of a hook, in order.
  The clock counts milliseconds; \<open>sleep_for\<close> advances it.
\<close>

datatype event = StartProxy json int int | TestUrl string int int | StopProxy int

record hooks =
  start_proxy_cb :: "(nat \<Rightarrow> json \<Rightarrow> int \<Rightarrow> int) option"
  stop_proxy_cb :: bool
  test_url_cb :: "(nat \<Rightarrow> string \<Rightarrow> int \<Rightarrow> int \<Rightarrow> int \<times> double) option"

record world =
  events :: "event list"
  clock_ms :: int

definition now_ts :: "world \<Rightarrow> int" where
  "now_ts w = clock_ms w div 1000"

definition sleep_for :: "int \<Rightarrow> world \<Rightarrow> world" where
  "sleep_for ms w = w\<lparr>clock_ms := clock_ms w + ms\<rparr>"

definition log_event :: "event \<Rightarrow> world \<Rightarrow> world" where
  "log_event ev w = w\<lparr>events := events w @ [ev]\<rparr>"

text \<open>The handles that are live after a sequence of events, given those live before.\<close>

fun live_step :: "int list \<Rightarrow> event \<Rightarrow> int list" where
  "live_step l (StartProxy c p h) = (if h \<ge> 0 then h # l else l)"
| "live_step l (StopProxy h) = remove1 h l"
| "live_step l (TestUrl u p t) = l"

definition live_after :: "int list \<Rightarrow> event list \<Rightarrow> int list" where
  "live_after l evs = foldl live_step l evs"

text \<open>At most one handle is live before, between and after the events.\<close>

fun at_most_one_live :: "int list \<Rightarrow> event list \<Rightarrow> bool" where
  "at_most_one_live l [] = (length l \<le> 1)"
| "at_most_one_live l (ev # evs) = (length l \<le> 1 \<and> at_most_one_live (live_step l ev) evs)"

subsection \<open>The balancer\<close>

record BackendInfo =
  backend_uri :: string
  latency :: double
  healthy :: bool
  added_at :: int

text \<open>
  The members of \<open>MultiProxyServer\<close> without the mutex, the thread and the hooks.
  \<open>lb_port\<close> is \<open>port_\<close>; the four counters are \<open>stats_\<close>. The obfuscation engine is
  held by pointer (\<open>None\<close> for \<open>nullptr\<close>).
\<close>

record MultiProxyServer =
  lb_port :: int
  num_backends :: int
  health_check_interval :: int
  iran_fragment_enabled :: bool
  obfuscation_engine :: "StealthObfuscationEngine option"
  running :: bool
  current_proxy_handle :: int
  backends :: "BackendInfo list"
  available_configs :: "(string \<times> double) list"
  failed_uris :: "string set"
  restarts :: int
  health_checks :: int
  backend_swaps :: int
  last_restart :: "int option"

definition new_MultiProxyServer ::
  "int \<Rightarrow> int \<Rightarrow> int \<Rightarrow> StealthObfuscationEngine option \<Rightarrow> bool \<Rightarrow> MultiProxyServer" where
  "new_MultiProxyServer p n interval obf frag =
     \<lparr>lb_port = p, num_backends = n, health_check_interval = interval,
      iran_fragment_enabled = frag, obfuscation_engine = obf,
      running = False, current_proxy_handle = - 1, backends = [], available_configs = [],
      failed_uris = {}, restarts = 0, health_checks = 0, backend_swaps = 0, last_restart = None\<rparr>"

subsection \<open>Threads\<close>

text \<open>
  The balancer is used by several threads: the callers of its public operations and its
  own health thread. They share the members of the object and the world of the hooks.
  A member function is a \<open>task\<close>: it has returned, it has thrown, or it is about to take
  an atomic step on the shared state, which yields the rest of the task. An atomic step is
  one call of a hook, one access to a member outside the lock, or one block under
  \<open>lock_guard\<close>; what a thread computes on its own locals between two steps is part of
  the step before or after it. Two accesses outside the lock that race are taken one after
  the other, in either order. A block under the lock is one step also when it calls hooks
  (\<open>write_and_start\<close>): no block of another thread under the lock can fall inside it, the
  hook calls of a probe on another thread could, and the model does not produce these
  interleavings.
\<close>

type_synonym shared = "MultiProxyServer \<times> world"

datatype 'a task = Return 'a | Throw exn | Atomic "shared \<Rightarrow> 'a task \<times> shared"

text \<open>Sequencing: \<open>tbind t k\<close> is \<open>t\<close>, then \<open>k\<close> on its result; an exception passes.\<close>

primrec tbind :: "'a task \<Rightarrow> ('a \<Rightarrow> 'b task) \<Rightarrow> 'b task" where
  "tbind (Return x) k = k x"
| "tbind (Throw e) k = Throw e"
| "tbind (Atomic f) k = Atomic (\<lambda>s. map_prod (\<lambda>t. tbind t k) id (f s))"

text \<open>A task run to its end with no other thread in between.\<close>

primrec run :: "'a task \<Rightarrow> shared \<Rightarrow> (exn + 'a) \<times> shared" where
  "run (Return x) s = (Inr x, s)"
| "run (Throw e) s = (Inl e, s)"
| "run (Atomic f) s = (case map_prod (\<lambda>t. run t) id (f s) of (r, s') \<Rightarrow> r s')"

text \<open>
  A task run to its end among other threads: after each of its steps the other threads
  change the shared state as the next function of \<open>others\<close> says (nothing once the list
  is used up). The result comes with the events the task's own steps appended.
\<close>

primrec run_among :: "'a task \<Rightarrow> (shared \<Rightarrow> shared) list \<Rightarrow> shared \<Rightarrow> (exn + 'a) \<times> event list" where
  "run_among (Return x) others s = (Inr x, [])"
| "run_among (Throw e) others s = (Inl e, [])"
| "run_among (Atomic f) others s =
     (case map_prod (\<lambda>t. run_among t) id (f s) of
        (r, s') \<Rightarrow>
          (case r (tl others) (case others of [] \<Rightarrow> s' | other # rest \<Rightarrow> other s') of
             (res, own) \<Rightarrow> (res, drop (length (events (snd s))) (events (snd s')) @ own)))"

text \<open>
  Threads side by side: \<open>interleave schedule threads s\<close> lets, for each number of the
  schedule in turn, the thread of that number take its next step.
\<close>

fun step_thread :: "'a task \<Rightarrow> shared \<Rightarrow> 'a task \<times> shared" where
  "step_thread (Atomic f) s = f s"
| "step_thread (Return x) s = (Return x, s)"
| "step_thread (Throw e) s = (Throw e, s)"

fun interleave :: "nat list \<Rightarrow> 'a task list \<Rightarrow> shared \<Rightarrow> 'a task list \<times> shared" where
  "interleave [] threads s = (threads, s)"
| "interleave (i # schedule) threads s =
     (if i < length threads
      then case step_thread (threads ! i) s of
             (t, s') \<Rightarrow> interleave schedule (threads[i := t]) s'
      else interleave schedule threads s)"

subsection \<open>\<open>std::to_string\<close> of a non-negative index\<close>

function nat_to_string :: "nat \<Rightarrow> string" where
  "nat_to_string n =
     (if n < 10 then [char_of (48 + n)]
      else nat_to_string (n div 10) @ [char_of (48 + n mod 10)])"
  by pat_completeness auto
termination
  by (relation "measure id") auto

subsection \<open>\<open>create_balanced_config\<close>\<close>

definition fragment_dialer :: "json \<Rightarrow> exn + json" where
  "fragment_dialer outbound =
     bnd (if \<not> json_contains outbound ''streamSettings''
          then json_set outbound ''streamSettings'' (JObject [])
          else Inr outbound) (\<lambda>o1.
     json_update_in o1 ''streamSettings'' (\<lambda>stream.
       bnd (if \<not> json_contains stream ''sockopt''
            then json_set stream ''sockopt'' (JObject [])
            else Inr stream) (\<lambda>s1.
       json_update_in s1 ''sockopt'' (\<lambda>sockopt.
         json_set sockopt ''dialerProxy'' (JString ''fragment'')))))"

text \<open>
  The body of the loop for one healthy backend that parses: the tag, the rewrite of the
  obfuscation engine (which advances the engine's counter), the fragment dialer.
\<close>

definition balanced_outbound ::
  "bool \<Rightarrow> json \<Rightarrow> string \<Rightarrow> StealthObfuscationEngine option
     \<Rightarrow> (exn + json) \<times> StealthObfuscationEngine option" where
  "balanced_outbound frag outbound0 tag obf =
     (case json_set outbound0 ''tag'' (JString tag) of
        Inl e \<Rightarrow> (Inl e, obf)
      | Inr o1 \<Rightarrow>
          (case (case obf of
                   Some e \<Rightarrow>
                     if enabled e
                     then (case apply_obfuscation_to_config e o1 of
                             Inl x \<Rightarrow> (Inl x, obf)
                           | Inr (o2, e') \<Rightarrow> (Inr o2, Some e'))
                     else (Inr o1, obf)
                 | None \<Rightarrow> (Inr o1, obf)) of
             (Inl x, obf') \<Rightarrow> (Inl x, obf')
           | (Inr o2, obf') \<Rightarrow> (if frag then fragment_dialer o2 else Inr o2, obf')))"

text \<open>
  The loop over the backends: the outbounds and selectors collected so far, the next index,
  and the obfuscation engine; the engine is returned also when the loop throws.
\<close>

fun balanced_outbounds ::
  "lib \<Rightarrow> bool \<Rightarrow> BackendInfo list \<Rightarrow> json list \<Rightarrow> json list \<Rightarrow> nat
     \<Rightarrow> StealthObfuscationEngine option
     \<Rightarrow> (exn + json list \<times> json list) \<times> StealthObfuscationEngine option" where
  "balanced_outbounds L frag [] outbounds selectors idx obf = (Inr (outbounds, selectors), obf)"
| "balanced_outbounds L frag (backend # rest) outbounds selectors idx obf =
     (if \<not> healthy backend then balanced_outbounds L frag rest outbounds selectors idx obf
      else
        case UniversalParser_parse L (backend_uri backend) of
          Inl e \<Rightarrow> (Inl e, obf)
        | Inr None \<Rightarrow> balanced_outbounds L frag rest outbounds selectors idx obf
        | Inr (Some p) \<Rightarrow>
            (let tag = ''proxy-'' @ nat_to_string idx in
             case balanced_outbound frag (cfg_outbound p) tag obf of
               (Inl e, obf') \<Rightarrow> (Inl e, obf')
             | (Inr outbound, obf') \<Rightarrow>
                 balanced_outbounds L frag rest (outbounds @ [outbound])
                   (selectors @ [JString tag]) (Suc idx) obf'))"

definition create_balanced_config ::
  "lib \<Rightarrow> MultiProxyServer \<Rightarrow> BackendInfo list
     \<Rightarrow> (exn + json) \<times> StealthObfuscationEngine option" where
  "create_balanced_config L b bs =
     (let outbounds0 =
            (if iran_fragment_enabled b
             then [JObject
                     [(''tag'', JString ''fragment''),
                      (''protocol'', JString ''freedom''),
                      (''settings'', JObject
                         [(''domainStrategy'', JString ''AsIs''),
                          (''fragment'', JObject
                             [(''packets'', JString ''tlshello''),
                              (''length'', JString ''10-20''),
                              (''interval'', JString ''10-20'')])])]]
             else [])
      in case balanced_outbounds L (iran_fragment_enabled b) bs outbounds0 [] 0
                (obfuscation_engine b) of
           (Inl e, obf') \<Rightarrow> (Inl e, obf')
         | (Inr (outbounds1, selectors1), obf') \<Rightarrow>
         let (outbounds2, selectors2) =
               (if selectors1 = []
                then (outbounds1 @ [JObject
                        [(''tag'', JString ''direct''),
                         (''protocol'', JString ''freedom''),
                         (''settings'', JObject [(''domainStrategy'', JString ''AsIs'')])]],
                      [JString ''direct''])
                else (outbounds1, selectors1));
             outbounds3 = outbounds2 @ [JObject
                        [(''protocol'', JString ''blackhole''),
                         (''tag'', JString ''block''),
                         (''settings'', JObject [])]]
         in (Inr (JObject
              [(''log'', JObject [(''loglevel'', JString ''warning'')]),
               (''inbounds'', JArray [JObject
                  [(''port'', JInt (lb_port b)),
                   (''listen'', JString ''0.0.0.0''),
                   (''protocol'', JString ''socks''),
                   (''settings'', JObject [(''auth'', JString ''noauth''), (''udp'', JBool True)]),
                   (''sniffing'', JObject
                      [(''enabled'', JBool True),
                       (''destOverride'', JArray [JString ''http'', JString ''tls'', JString ''quic'']),
                       (''routeOnly'', JBool False)])]]),
               (''outbounds'', JArray outbounds3),
               (''routing'', JObject
                  [(''domainStrategy'', JString ''AsIs''),
                   (''balancers'', JArray [JObject
                      [(''tag'', JString ''balancer''),
                       (''selector'', JArray selectors2),
                       (''strategy'', JObject [(''type'', JString ''random'')])]]),
                   (''rules'', JArray [JObject
                      [(''type'', JString ''field''),
                       (''inboundTag'', JArray [JString ''socks'']),
                       (''balancerTag'', JString ''balancer'')]])]),
               (''dns'', JObject
                  [(''servers'', JArray
                      [JString ''https://cloudflare-dns.com/dns-query'',
                       JString ''https://dns.google/dns-query'',
                       JString ''1.1.1.1'',
                       JString ''8.8.8.8''])])]),
            obf'))"

subsection \<open>\<open>write_and_start\<close>\<close>

text \<open>
  Every caller holds the lock, so the function is one step on the shared state. Its
  result says whether it threw; the state is returned in both cases.
\<close>

definition write_and_start ::
  "lib \<Rightarrow> hooks \<Rightarrow> BackendInfo list \<Rightarrow> shared \<Rightarrow> (exn + bool) \<times> shared" where
  "write_and_start L H bs s =
     (case s of (b, w) \<Rightarrow>
      case create_balanced_config L b bs of (made, obf') \<Rightarrow>
      let b0 = b\<lparr>obfuscation_engine := obf'\<rparr> in
      case bnd made json_dump of
        Inl e \<Rightarrow> (Inl e, (b0, w))
      | Inr config_str \<Rightarrow>
          (let (b1, w1) =
                 (if current_proxy_handle b0 \<ge> 0 \<and> stop_proxy_cb H
                  then (b0\<lparr>current_proxy_handle := - 1\<rparr>,
                        log_event (StopProxy (current_proxy_handle b0)) w)
                  else (b0, w))
           in case start_proxy_cb H of
                Some cb \<Rightarrow>
                  (let h = cb (length (events w1)) config_str (lb_port b1);
                       b2 = b1\<lparr>current_proxy_handle := h\<rparr>;
                       w2 = log_event (StartProxy config_str (lb_port b1) h) w1
                   in if h < 0 then (Inr False, (b2, w2))
                      else let w3 = sleep_for 1500 w2
                           in (Inr True,
                               (b2\<lparr>restarts := restarts b2 + 1, last_restart := Some (now_ts w3)\<rparr>,
                                w3)))
              | None \<Rightarrow> (Inr False, (b1, w1))))"

subsection \<open>\<open>test_backend\<close>\<close>

text \<open>
  The probe port: the hash is cut to a 32-bit \<open>int\<close>, \<open>%\<close> truncates towards zero, and
  the sums are 32-bit \<open>int\<close>s (\<open>int32\<close>, as in the scraper).
\<close>

definition test_port_for :: "lib \<Rightarrow> int \<Rightarrow> string \<Rightarrow> int" where
  "test_port_for L p uri =
     (let h = sint (word_of_nat (str_hash L uri) :: 32 word);
          r = (if h \<ge> 0 then h mod 50 else - ((- h) mod 50));
          test_port = int32 (int32 (p + 100) + r)
      in if test_port < 0 then int32 (p + 100) else test_port)"

definition probe_config :: "json \<Rightarrow> int \<Rightarrow> json" where
  "probe_config outbound test_port =
     JObject
       [(''log'', JObject [(''loglevel'', JString ''warning'')]),
        (''inbounds'', JArray [JObject
           [(''port'', JInt test_port),
            (''listen'', JString ''127.0.0.1''),
            (''protocol'', JString ''socks''),
            (''settings'', JObject [(''auth'', JString ''noauth''), (''udp'', JBool False)])]]),
        (''outbounds'', JArray [outbound])]"

definition probe_url :: string where
  "probe_url = ''https://cp.cloudflare.com/''"

definition accepts :: "int \<Rightarrow> bool" where
  "accepts status_code = (status_code > 0 \<and> (status_code < 400 \<or> status_code = 204))"

text \<open>
  The probe takes no lock. Its steps are its hook calls: the start of the engine (with the
  parse and the \<open>dump()\<close> before it, which work on locals and may throw), the test after
  the sleep, and the stop.
\<close>

definition probe_stop :: "hooks \<Rightarrow> int \<Rightarrow> double option \<Rightarrow> double option task" where
  "probe_stop H handle result =
     (if stop_proxy_cb H \<and> handle \<ge> 0
      then Atomic (\<lambda>(b, w). (Return result, (b, log_event (StopProxy handle) w)))
      else Return result)"

definition probe_test :: "hooks \<Rightarrow> int \<Rightarrow> int \<Rightarrow> int \<Rightarrow> double option task" where
  "probe_test H test_port timeout handle =
     Atomic (\<lambda>(b, w).
       let w2 = sleep_for 2000 w
       in case test_url_cb H of
            Some cb \<Rightarrow>
              (let (status_code, lat) = cb (length (events w2)) probe_url test_port timeout
               in (probe_stop H handle (if accepts status_code then Some lat else None),
                   (b, log_event (TestUrl probe_url test_port timeout) w2)))
          | None \<Rightarrow> (probe_stop H handle None, (b, w2)))"

definition test_backend :: "lib \<Rightarrow> hooks \<Rightarrow> string \<Rightarrow> int \<Rightarrow> double option task" where
  "test_backend L H uri timeout =
     Atomic (\<lambda>(b, w).
       case UniversalParser_parse L uri of
         Inl e \<Rightarrow> (Throw e, (b, w))
       | Inr None \<Rightarrow> (Return None, (b, w))
       | Inr (Some p) \<Rightarrow>
           (let test_port = test_port_for L (lb_port b) uri;
                config = probe_config (cfg_outbound p) test_port
            in case start_proxy_cb H of
                 None \<Rightarrow> (Return None, (b, w))
               | Some cb \<Rightarrow>
                   (case json_dump config of
                      Inl e \<Rightarrow> (Throw e, (b, w))
                    | Inr config_str \<Rightarrow>
                        (let handle = cb (length (events w)) config_str test_port;
                             w1 = log_event (StartProxy config_str test_port handle) w
                         in if handle < 0 then (Return None, (b, w1))
                            else (probe_test H test_port timeout handle, (b, w1))))))"

subsection \<open>\<open>find_working_backends\<close>\<close>

text \<open>
  The loop over the sorted configurations; the default probe timeout is 8. The look-up in
  \<open>failed_uris_\<close>, the reading of the clock and the insertion into \<open>failed_uris_\<close> are
  steps of their own: the function holds the lock only while it copies
  \<open>available_configs_\<close>.
\<close>

fun probe_loop ::
  "lib \<Rightarrow> hooks \<Rightarrow> int \<Rightarrow> (string \<times> double) list \<Rightarrow> BackendInfo list \<Rightarrow> BackendInfo list task" where
  "probe_loop L H cnt [] working = Return working"
| "probe_loop L H cnt (config # rest) working =
     (if int (length working) \<ge> cnt then Return working
      else
        Atomic (\<lambda>(b, w).
          (if fst config \<in> failed_uris b then probe_loop L H cnt rest working
           else
             tbind (test_backend L H (fst config) 8) (\<lambda>test_result.
               case test_result of
                 Some v \<Rightarrow>
                   Atomic (\<lambda>(b, w).
                     (probe_loop L H cnt rest
                        (working @ [\<lparr>backend_uri = fst config, latency = v, healthy = True,
                                     added_at = now_ts w\<rparr>]),
                      (b, w)))
               | None \<Rightarrow>
                   Atomic (\<lambda>(b, w).
                     (probe_loop L H cnt rest working,
                      (b\<lparr>failed_uris := insert (fst config) (failed_uris b)\<rparr>, w)))),
           (b, w))))"

definition find_working_backends :: "lib \<Rightarrow> hooks \<Rightarrow> int \<Rightarrow> BackendInfo list task" where
  "find_working_backends L H cnt =
     Atomic (\<lambda>(b, w). (probe_loop L H cnt (sort_by_latency L (available_configs b)) [], (b, w)))"

subsection \<open>The public operations and one round of the health loop\<close>

text \<open>
  \<open>rebuild\<close> is the sequence the three callers share: \<open>find_working_backends\<close>, and when
  it found a backend, the block under the lock with the assignment to \<open>backends_\<close> and
  \<open>write_and_start\<close>. The health loop counts the swap in that block.
\<close>

definition rebuild :: "lib \<Rightarrow> hooks \<Rightarrow> int \<Rightarrow> bool \<Rightarrow> unit task" where
  "rebuild L H cnt count_swap =
     tbind (find_working_backends L H cnt) (\<lambda>new_backends.
       if new_backends \<noteq> []
       then Atomic (\<lambda>(b, w).
              case write_and_start L H new_backends (b\<lparr>backends := new_backends\<rparr>, w) of
                (Inl e, s') \<Rightarrow> (Throw e, s')
              | (Inr ok, (b', w')) \<Rightarrow>
                  (Return (),
                   (if count_swap then b'\<lparr>backend_swaps := backend_swaps b' + 1\<rparr> else b', w')))
       else Return ())"

text \<open>\<open>start\<close>, up to the launch of the health thread.\<close>

definition start_balancer ::
  "lib \<Rightarrow> hooks \<Rightarrow> (string \<times> double) list option \<Rightarrow> unit task" where
  "start_balancer L H initial_configs =
     Atomic (\<lambda>(b, w).
       if running b then (Return (), (b, w))
       else
         (let go = rebuild L H (num_backends b) False
          in case initial_configs of
               Some cs \<Rightarrow> Atomic (\<lambda>(b, w). (go, (b\<lparr>available_configs := cs\<rparr>, w)))
             | None \<Rightarrow> go,
          (b\<lparr>running := True\<rparr>, w)))"

text \<open>
  One round of \<open>health_check_loop\<close>: the test of \<open>running_\<close>, the sleep and the second
  test, the copy of \<open>backends_\<close> under the lock, the counter, and the reading of
  \<open>available_configs_\<close>, which is outside the lock and happens only when no backend is
  healthy.
\<close>

definition health_round :: "lib \<Rightarrow> hooks \<Rightarrow> unit task" where
  "health_round L H =
     Atomic (\<lambda>(b, w).
       if \<not> running b then (Return (), (b, w))
       else
         (Atomic (\<lambda>(b, w).
            let w1 = sleep_for (health_check_interval b * 1000) w
            in if \<not> running b then (Return (), (b, w1))
               else
                 (Atomic (\<lambda>(b, w).
                    let healthy_count = int (length (filter healthy (backends b)))
                    in (Atomic (\<lambda>(b, w).
                          (if healthy_count = 0
                           then Atomic (\<lambda>(b, w).
                                  (if available_configs b \<noteq> []
                                   then rebuild L H (num_backends b) True
                                   else Return (),
                                   (b, w)))
                           else Return (),
                           (b\<lparr>health_checks := health_checks b + 1\<rparr>, w))),
                        (b, w))),
                  (b, w1))),
          (b, w)))"

definition update_available_configs ::
  "lib \<Rightarrow> hooks \<Rightarrow> (string \<times> double) list \<Rightarrow> unit task" where
  "update_available_configs L H cs =
     Atomic (\<lambda>(b, w).
       let b1 = b\<lparr>available_configs := cs\<rparr>
       in if \<not> running b1 then (Return (), (b1, w))
          else
            (Atomic (\<lambda>(b, w).
               (if backends b = []
                then rebuild L H (num_backends b) False
                else Return (),
                (b, w))),
             (b1, w)))"

text \<open>
  \<open>stop\<close>: between its two steps it joins the health thread, so its second step comes
  when that thread has ended.
\<close>

definition stop_balancer :: "hooks \<Rightarrow> unit task" where
  "stop_balancer H =
     Atomic (\<lambda>(b, w).
       (Atomic (\<lambda>(b, w).
          (Return (),
           if current_proxy_handle b \<ge> 0 \<and> stop_proxy_cb H
           then (b\<lparr>current_proxy_handle := - 1\<rparr>, log_event (StopProxy (current_proxy_handle b)) w)
           else (b, w))),
        (b\<lparr>running := False\<rparr>, w)))"

text \<open>
  A run of the balancer in which no two operations overlap: each is run to its end before
  the next begins. An operation that throws ends there, and the run goes on with the
  next one, as when the caller catches the exception.
\<close>

datatype balancer_op =
    OpStart "(string \<times> double) list option"
  | OpHealthRound
  | OpUpdate "(string \<times> double) list"
  | OpStop

fun op_task :: "lib \<Rightarrow> hooks \<Rightarrow> balancer_op \<Rightarrow> unit task" where
  "op_task L H (OpStart cs) = start_balancer L H cs"
| "op_task L H OpHealthRound = health_round L H"
| "op_task L H (OpUpdate cs) = update_available_configs L H cs"
| "op_task L H OpStop = stop_balancer H"

fun run_ops :: "lib \<Rightarrow> hooks \<Rightarrow> balancer_op list \<Rightarrow> shared \<Rightarrow> shared" where
  "run_ops L H [] s = s"
| "run_ops L H (x # xs) s = run_ops L H xs (snd (run (op_task L H x) s))"

text \<open>
  The cycle thread in \<open>update_available_configs\<close> beside the health thread in one round
  of its loop, on a started balancer: thread 0 and thread 1 of the schedule.
\<close>

definition update_beside_health ::
  "lib \<Rightarrow> hooks \<Rightarrow> (string \<times> double) list \<Rightarrow> nat list \<Rightarrow> shared \<Rightarrow> unit task list \<times> shared" where
  "update_beside_health L H cs schedule s =
     interleave schedule [update_available_configs L H cs, health_round L H] s"

text \<open>The handles a balancer holds: its current handle when that is not negative.\<close>

definition held :: "MultiProxyServer \<Rightarrow> int list" where
  "held b = (if current_proxy_handle b \<ge> 0 then [current_proxy_handle b] else [])"

text \<open>
  What holds between operations that do not overlap: the live handles are the held ones,
  never more than one handle was live, and a balancer that holds a handle is running on a
  non-empty list of healthy backends.
\<close>

definition balancer_inv :: "shared \<Rightarrow> bool" where
  "balancer_inv s =
     (case s of (b, w) \<Rightarrow>
        live_after [] (events w) = held b
      \<and> at_most_one_live [] (events w)
      \<and> (current_proxy_handle b \<ge> 0 \<longrightarrow>
           running b \<and> backends b \<noteq> [] \<and> (\<forall>x \<in> set (backends b). healthy x)))"

text \<open>The events one probe appends: none, a failed start, or a start that is followed by
  the test (when the test hook is installed) and the stop (when the stop hook is installed).\<close>

definition probe_events :: "bool \<Rightarrow> event list \<Rightarrow> bool" where
  "probe_events stop_installed new =
     (new = []
      \<or> (\<exists>c p h. h < 0 \<and> new = [StartProxy c p h])
      \<or> (\<exists>c p h u t. h \<ge> 0 \<and>
            new = [StartProxy c p h] @ (if u then [TestUrl probe_url p t] else [])
                  @ (if stop_installed then [StopProxy h] else [])))"

text \<open>
  The book-keeping of the handles among several threads. A thread owes the handles it has
  started and not yet stopped, the balancer holds its current handle. A step from \<open>s\<close> to
  \<open>s'\<close> of a thread that owed \<open>owed\<close> and now owes \<open>owed'\<close> is \<open>accounted\<close> when its
  events take exactly the handles owed and held before out of the live handles and put
  those owed and held after in their place. \<open>owes t owed\<close> says so of every step that the
  task \<open>t\<close> can take, whatever the shared state it meets, and that the task owes nothing
  when it ends and never more than one handle.
\<close>

definition accounted :: "shared \<Rightarrow> shared \<Rightarrow> int list \<Rightarrow> int list \<Rightarrow> bool" where
  "accounted s s' owed owed' =
     (\<exists>new. events (snd s') = events (snd s) @ new
        \<and> (\<forall>l. mset (owed @ held (fst s)) \<subseteq># mset l \<longrightarrow>
               mset (live_after l new)
                 = mset l - mset (owed @ held (fst s)) + mset (owed' @ held (fst s'))))"

primrec owes :: "'a task \<Rightarrow> int list \<Rightarrow> bool" where
  "owes (Return x) owed = (owed = [])"
| "owes (Throw e) owed = (owed = [])"
| "owes (Atomic f) owed =
     (length owed \<le> 1
      \<and> (\<forall>s. case map_prod (\<lambda>t. owes t) id (f s) of
                (rest_owes, s') \<Rightarrow> \<exists>owed'. rest_owes owed' \<and> accounted s s' owed owed'))"

text \<open>A thread has ended when its task has returned or thrown.\<close>

fun ended :: "'a task \<Rightarrow> bool" where
  "ended (Atomic f) = False"
| "ended (Return x) = True"
| "ended (Throw e) = True"

text \<open>The events of a log without the arguments of the calls other than the handle.\<close>

datatype call = Start int | Test | Stop int

fun call_of :: "event \<Rightarrow> call" where
  "call_of (StartProxy c p h) = Start h"
| "call_of (TestUrl u p t) = Test"
| "call_of (StopProxy h) = Stop h"

definition calls :: "shared \<Rightarrow> call list" where
  "calls s = map call_of (events (snd s))"

text \<open>Hooks and a start state for the concrete evaluations.\<close>

definition example_hooks :: "bool \<Rightarrow> int \<Rightarrow> hooks" where
  "example_hooks stop_installed status =
     \<lparr>start_proxy_cb = Some (\<lambda>n c p. int n + 7),
      stop_proxy_cb = stop_installed,
      test_url_cb = Some (\<lambda>n u p t. (status, Finite 123))\<rparr>"

definition example_world :: world where
  "example_world = \<lparr>events = [], clock_ms = 0\<rparr>"

definition example_balancer :: MultiProxyServer where
  "example_balancer = new_MultiProxyServer 10808 5 60 None False"

section \<open>Theorems\<close>

subsection \<open>C1: tier assignment\<close>

text \<open>
  C1, as stated, asks for \<open>dead\<close> from latency 2000 on. The code tests
  \<open>latency_ms > 2000.0\<close>, so a latency of exactly 2000 is \<open>silver\<close>.
\<close>

theorem tier_for_latency_2000_counterexample:
  "tier_for_latency (Finite 2000) \<noteq> ''dead''"
  by (simp add: tier_for_latency_def dgreater_def)

text \<open>
  C1 (amended): the tier is a function of the latency alone: \<open>gold\<close> below 200,
  \<open>silver\<close> from 200 up to and including 2000, \<open>dead\<close> strictly above 2000 (also
  for an infinite latency); a NaN latency is \<open>silver\<close>. In particular 200, 800 and 2000 are
  all \<open>silver\<close>.
\<close>

theorem tier_for_latency_spec:
  "tier_for_latency (Finite x) =
     (if x < 200 then ''gold'' else if x \<le> 2000 then ''silver'' else ''dead'')
   \<and> tier_for_latency PosInf = ''dead''
   \<and> tier_for_latency NegInf = ''gold''
   \<and> tier_for_latency NaN = ''silver''
   \<and> tier_for_latency (Finite 200) = ''silver''
   \<and> tier_for_latency (Finite 800) = ''silver''
   \<and> tier_for_latency (Finite 2000) = ''silver''"
  by (simp add: tier_for_latency_def dgreater_def)

subsection \<open>First occurrences\<close>

lemma set_first_seen [simp]: "set (first_seen xs) = set xs"
  by (induction xs) auto

lemma distinct_first_seen [simp]: "distinct (first_seen xs)"
  by (induction xs) auto

lemma first_seen_filter: "first_seen (filter Q xs) = filter Q (first_seen xs)"
proof (induction xs)
  case Nil
  show ?case by simp
next
  case (Cons x xs)
  have a: "filter (\<lambda>y. y \<noteq> x) (filter Q ys) = filter Q (filter (\<lambda>y. y \<noteq> x) ys)" for ys
    by (induction ys) auto
  have b: "\<not> Q x \<Longrightarrow> filter Q (filter (\<lambda>y. y \<noteq> x) ys) = filter Q ys" for ys
    by (induction ys) auto
  show ?case
  proof (cases "Q x")
    case True
    then show ?thesis using Cons a by simp
  next
    case False
    then show ?thesis using Cons b [of "first_seen xs"] by simp
  qed
qed



subsection \<open>C4: saving to the cache file\<close>


lemma collect_new_eq:
  "collect_new E ls = first_seen (filter (\<lambda>l. l \<noteq> [] \<and> l \<notin> E) ls)"
proof (induction ls arbitrary: E)
  case Nil
  show ?case by simp
next
  case (Cons x xs)
  show ?case
  proof (cases "x \<noteq> [] \<and> x \<notin> E")
    case True
    have "filter (\<lambda>y. y \<noteq> x) (filter (\<lambda>l. l \<noteq> [] \<and> l \<notin> E) ys)
          = filter (\<lambda>l. l \<noteq> [] \<and> l \<notin> insert x E) ys" for ys
      by (induction ys) auto
    with True show ?thesis
      by (simp add: Cons.IH first_seen_filter)
  next
    case False
    then show ?thesis by (auto simp: Cons.IH)
  qed
qed

lemma set_collect_new: "set (collect_new E ls) = {l \<in> set ls. l \<noteq> [] \<and> l \<notin> E}"
  by (induction ls arbitrary: E) auto

lemma distinct_collect_new: "distinct (collect_new E ls)"
  by (induction ls arbitrary: E) (auto simp: set_collect_new)

lemma getlines_line:
  "CHR 0x0A \<notin> set l \<Longrightarrow> getlines cur (l @ CHR 0x0A # rest) = (rev cur @ l) # getlines [] rest"
  by (induction l arbitrary: cur) auto

lemma getlines_write_out:
  "\<forall>l \<in> set ls. CHR 0x0A \<notin> set l \<Longrightarrow> getlines [] (write_out ls) = ls"
  by (induction ls) (auto simp: write_out_def getlines_line)

lemma getlines_append_terminated:
  "getlines cur (s @ CHR 0x0A # t) = getlines cur (s @ [CHR 0x0A]) @ getlines [] t"
  by (induction s arbitrary: cur) auto

lemma getlines_append:
  assumes "s = [] \<or> last s = CHR 0x0A"
  shows "getlines [] (s @ t) = getlines [] s @ getlines [] t"
proof (cases "s = []")
  case True
  then show ?thesis by simp
next
  case False
  with assms have "s = butlast s @ [CHR 0x0A]"
    by (metis append_butlast_last_id)
  then obtain s' where s: "s = s' @ [CHR 0x0A]" by blast
  show ?thesis unfolding s using getlines_append_terminated [of "[]" s' t] by simp
qed


lemma append_unique_lines_closed:
  "append_unique_lines fs path uris =
     (let new = first_seen (filter (\<lambda>u. u \<noteq> [] \<and> u \<notin> set (read_lines fs path)) uris)
      in if new = [] \<or> \<not> appendable (fs path) then (0, fs)
         else (int (length new),
               fs(path := (fs path)\<lparr>content :=
                   Some ((case content (fs path) of None \<Rightarrow> [] | Some s \<Rightarrow> s) @ write_out new)\<rparr>)))"
  by (simp add: append_unique_lines_def Let_def collect_new_eq)

lemma read_lines_appended:
  assumes t: "terminated (content (fs path))"
    and c: "\<forall>u \<in> set new. u \<noteq> [] \<and> trim u = u \<and> CHR 0x0A \<notin> set u"
  shows "read_lines (fs(path := (fs path)\<lparr>content :=
            Some ((case content (fs path) of None \<Rightarrow> [] | Some s \<Rightarrow> s) @ write_out new)\<rparr>)) path
         = read_lines fs path @ new"
proof -
  have n: "getlines [] (write_out new) = new"
    using c by (simp add: getlines_write_out)
  have m: "filter (\<lambda>l. l \<noteq> []) (map trim new) = new"
    using c by (induction new) auto
  show ?thesis
  proof (cases "content (fs path)")
    case None
    then show ?thesis by (simp add: read_lines_def n m)
  next
    case (Some s)
    with t have "s = [] \<or> last s = CHR 0x0A" by (simp add: terminated_def)
    then have "getlines [] (s @ write_out new) = getlines [] s @ new"
      by (simp add: getlines_append n)
    with Some show ?thesis by (simp add: read_lines_def m)
  qed
qed

text \<open>
  C4 (amended): when the target file can be opened for appending, its prior content is
  missing, empty or ends with a line feed and has no duplicate lines, and no input URI has
  surrounding whitespace or a line feed, Save appends exactly the non-empty input URIs that
  are not yet a line of the file, each once, in input order; it returns their number and
  leaves every other file alone; afterwards every non-empty input URI is a line of the file,
  no line is duplicated, and a second Save of the same list returns 0 and changes nothing.
\<close>

theorem append_unique_lines_save:
  assumes w: "appendable (fs path)"
    and t: "terminated (content (fs path))"
    and d: "distinct (read_lines fs path)"
    and c: "\<forall>u \<in> set uris. trim u = u \<and> CHR 0x0A \<notin> set u"
    and r: "append_unique_lines fs path uris = (n, fs')"
  shows "read_lines fs' path = read_lines fs path
            @ first_seen (filter (\<lambda>u. u \<noteq> [] \<and> u \<notin> set (read_lines fs path)) uris)
       \<and> n = int (length (first_seen (filter (\<lambda>u. u \<noteq> [] \<and> u \<notin> set (read_lines fs path)) uris)))
       \<and> (\<forall>p. p \<noteq> path \<longrightarrow> fs' p = fs p)
       \<and> (\<forall>u \<in> set uris. u \<noteq> [] \<longrightarrow> u \<in> set (read_lines fs' path))
       \<and> distinct (read_lines fs' path)
       \<and> append_unique_lines fs' path uris = (0, fs')"
proof -
  define new where "new = first_seen (filter (\<lambda>u. u \<noteq> [] \<and> u \<notin> set (read_lines fs path)) uris)"
  have sn: "set new = {u \<in> set uris. u \<noteq> [] \<and> u \<notin> set (read_lines fs path)}"
    by (auto simp: new_def)
  have dn: "distinct new" by (simp add: new_def)
  have cn: "\<forall>u \<in> set new. u \<noteq> [] \<and> trim u = u \<and> CHR 0x0A \<notin> set u"
    using c sn by auto
  have rl: "read_lines fs' path = read_lines fs path @ new"
  proof (cases "new = []")
    case True
    with r have "fs' = fs" by (simp add: append_unique_lines_closed new_def [symmetric])
    with True show ?thesis by simp
  next
    case False
    with r w have "fs' = fs(path := (fs path)\<lparr>content :=
            Some ((case content (fs path) of None \<Rightarrow> [] | Some s \<Rightarrow> s) @ write_out new)\<rparr>)"
      by (simp add: append_unique_lines_closed new_def [symmetric])
    then show ?thesis using read_lines_appended [of fs path new] t cn by simp
  qed
  have nn: "n = int (length new)"
    using r w by (auto simp: append_unique_lines_closed new_def [symmetric] split: if_splits)
  have oth: "\<forall>p. p \<noteq> path \<longrightarrow> fs' p = fs p"
    using r by (auto simp: append_unique_lines_closed new_def [symmetric] split: if_splits)
  have mem: "\<forall>u \<in> set uris. u \<noteq> [] \<longrightarrow> u \<in> set (read_lines fs' path)"
    using rl sn by auto
  have dis: "distinct (read_lines fs' path)"
    using rl d dn sn by auto
  have "filter (\<lambda>u. u \<noteq> [] \<and> u \<notin> set (read_lines fs' path)) uris = []"
    using mem by (auto simp: filter_empty_conv)
  then have again: "append_unique_lines fs' path uris = (0, fs')"
    by (simp add: append_unique_lines_closed)
  show ?thesis
    using rl nn oth mem dis again unfolding new_def by blast
qed


text \<open>The theorem at a file holding the line \<open>a\<close>, saving \<open>a, b, b\<close>.\<close>

theorem append_unique_lines_save_witness:
  "read_lines (snd (append_unique_lines (one_file (Some ''a\<newline>'') True) ''f'' [''a'', ''b'', ''b''])) ''f''
     = [''a'', ''b'']
   \<and> fst (append_unique_lines (one_file (Some ''a\<newline>'') True) ''f'' [''a'', ''b'', ''b'']) = 1
   \<and> append_unique_lines
        (snd (append_unique_lines (one_file (Some ''a\<newline>'') True) ''f'' [''a'', ''b'', ''b'']))
        ''f'' [''a'', ''b'', ''b'']
      = (0, snd (append_unique_lines (one_file (Some ''a\<newline>'') True) ''f'' [''a'', ''b'', ''b'']))"
proof -
  let ?fs = "one_file (Some ''a\<newline>'') True"
  let ?uris = "[''a'', ''b'', ''b'']"
  have rl: "read_lines ?fs ''f'' = [''a'']"
    by (simp add: read_lines_def one_file_def trim_def is_trim_char_def)
  have w: "appendable (?fs ''f'')" by (simp add: one_file_def)
  have t: "terminated (content (?fs ''f''))" by (simp add: one_file_def terminated_def)
  have d: "distinct (read_lines ?fs ''f'')" by (simp add: rl)
  have c: "\<forall>u \<in> set ?uris. trim u = u \<and> CHR 0x0A \<notin> set u"
    by (simp add: trim_def is_trim_char_def)
  have r: "append_unique_lines ?fs ''f'' ?uris
           = (fst (append_unique_lines ?fs ''f'' ?uris), snd (append_unique_lines ?fs ''f'' ?uris))"
    by simp
  show ?thesis
    using append_unique_lines_save [OF w t d c r] by (simp add: rl)
qed

text \<open>
  C4, as stated for every prior file content and every list, fails: duplicate lines of the
  prior content stay; a prior content without final line feed swallows the first appended
  URI into its last line; a URI with a leading space is compared untrimmed against trimmed
  lines, so a second Save appends it again; and a file that cannot be opened for appending
  gets nothing.
\<close>

theorem append_unique_lines_counterexample:
  "\<not> distinct (read_lines (snd (append_unique_lines
         (one_file (Some ''a\<newline>a\<newline>'') True) ''f'' [''b''])) ''f'')
   \<and> ''b'' \<notin> set (read_lines (snd (append_unique_lines
         (one_file (Some ''a'') True) ''f'' [''b''])) ''f'')
   \<and> fst (append_unique_lines (snd (append_unique_lines
         (one_file None True) ''f'' ['' b''])) ''f'' ['' b'']) = 1
   \<and> append_unique_lines (one_file None False) ''f'' [''b''] = (0, one_file None False)"
  by (simp add: append_unique_lines_def read_lines_def one_file_def write_out_def
      trim_def is_trim_char_def Let_def)

subsection \<open>C7: the failure counter\<close>

text \<open>
  C7: \<open>record_failure\<close> increments the counter by one (below \<open>INT_MAX\<close>, where the C++
  increment is defined); \<open>should_use_cache\<close> holds exactly when the counter is at least 2;
  a Save that appended at least one line (the code's successful save) resets the counter to
  zero, so that the cache is not used until two further failures; a Save that appended
  nothing leaves the cache state as it was.
\<close>

theorem failure_counter:
  "(sint (consecutive_failures c) < 2 ^ 31 - 1 \<longrightarrow>
      sint (consecutive_failures (record_failure c)) = sint (consecutive_failures c) + 1)
   \<and> (should_use_cache c \<longleftrightarrow> 2 \<le> sint (consecutive_failures c))
   \<and> (save_configs c fs now uris working = (appended, c', fs') \<longrightarrow>
        (if appended > 0
         then consecutive_failures c' = 0
            \<and> \<not> should_use_cache c'
            \<and> \<not> should_use_cache (record_failure c')
            \<and> should_use_cache (record_failure (record_failure c'))
         else c' = c))"
proof -
  have a: "sint (consecutive_failures c) < 2 ^ 31 - 1 \<Longrightarrow>
      sint (consecutive_failures c + 1) = sint (consecutive_failures c) + 1"
  proof -
    assume h: "sint (consecutive_failures c) < 2 ^ 31 - 1"
    have "- (2 ^ 31) \<le> sint (consecutive_failures c)"
      using sint_ge [of "consecutive_failures c"] by simp
    with h show ?thesis
      by (simp add: sint_word_ariths signed_take_bit_int_eq_self)
  qed
  have b: "save_configs c fs now uris working = (appended, c', fs') \<Longrightarrow> appended > 0 \<Longrightarrow>
      consecutive_failures c' = 0"
    by (auto simp: save_configs_def Let_def split: prod.splits if_splits)
  have b': "save_configs c fs now uris working = (appended, c', fs') \<Longrightarrow> \<not> appended > 0 \<Longrightarrow>
      c' = c"
    by (auto simp: save_configs_def Let_def split: prod.splits if_splits)
  show ?thesis
    using a b b' by (auto simp: record_failure_def should_use_cache_def)
qed

text \<open>The theorem at a cache with five failures, saving one new line to a missing file.\<close>

theorem failure_counter_witness:
  "sint (consecutive_failures (record_failure cache0)) = 6
   \<and> should_use_cache cache0
   \<and> fst (save_configs cache0 (one_file None True) 100 [''a''] False) = 1
   \<and> consecutive_failures (fst (snd (save_configs cache0 (one_file None True) 100 [''a''] False))) = 0
   \<and> \<not> should_use_cache (fst (snd (save_configs cache0 (one_file None True) 100 [''a''] False)))"
proof -
  let ?r = "save_configs cache0 (one_file None True) 100 [''a''] False"
  have s: "?r = (fst ?r, fst (snd ?r), snd (snd ?r))" by simp
  have f: "fst ?r = 1"
    by (simp add: save_configs_def append_unique_lines_def read_lines_def one_file_def
        cache0_def resolve_path_def Let_def)
  have h: "sint (consecutive_failures cache0) < 2 ^ 31 - 1" by (simp add: cache0_def)
  have v: "sint (consecutive_failures cache0) = 5" by (simp add: cache0_def)
  show ?thesis
    using failure_counter [of cache0 "one_file None True" 100 "[''a'']" False
        "fst ?r" "fst (snd ?r)" "snd (snd ?r)"] s f h v
    by simp
qed

subsection \<open>Evaluating \<open>tolower\<close> on character literals\<close>

lemma tolower_Char [code]:
  "tolower (Char b0 b1 b2 b3 b4 b5 b6 b7) =
     (if \<not> b7 \<and> b6 \<and> \<not> b5 \<and> (b0 \<or> b1 \<or> b2 \<or> b3 \<or> b4) \<and> \<not> (b4 \<and> b3 \<and> (b2 \<or> (b1 \<and> b0)))
      then Char b0 b1 b2 b3 b4 True b6 b7
      else Char b0 b1 b2 b3 b4 b5 b6 b7)"
  by (cases b0; cases b1; cases b2; cases b3; cases b4; cases b5; cases b6; cases b7;
      simp add: tolower_def byte_def; code_simp)

subsection \<open>C3: the prioritizer\<close>

















lemma sorted_const_tier: "\<forall>y \<in> set ys. tier_of y = n \<Longrightarrow> sorted (map tier_of ys)"
  by (induction ys) auto






subsection \<open>C2 and C9: the URI parsers\<close>


lemma bnd_Inr_iff: "bnd m f = Inr y \<longleftrightarrow> (\<exists>x. m = Inr x \<and> f x = Inr y)"
  by (cases m) (simp_all add: bnd_def)

lemma catch_all_Some_iff: "catch_all m None = Some c \<longleftrightarrow> m = Inr (Some c)"
  by (cases m) (simp_all add: catch_all_def)

lemma VLESSParser_parse_inv:
  "VLESSParser_parse L uri = Some c \<Longrightarrow>
   cfg_host c \<noteq> [] \<and> cfg_host c \<noteq> ''0.0.0.0'' \<and> 1 \<le> cfg_port c \<and> cfg_identity c \<noteq> []
   \<and> cfg_uri c = uri"
  unfolding VLESSParser_parse_def catch_all_Some_iff VLESSParser_body_def Let_def
  by (auto split: if_splits)

lemma TrojanParser_parse_inv:
  "TrojanParser_parse L uri = Some c \<Longrightarrow>
   cfg_host c \<noteq> [] \<and> cfg_host c \<noteq> ''0.0.0.0'' \<and> 1 \<le> cfg_port c \<and> cfg_identity c \<noteq> []
   \<and> cfg_uri c = uri"
  unfolding TrojanParser_parse_def catch_all_Some_iff TrojanParser_body_def Let_def
  by (auto split: if_splits)

lemma dec_value_nonneg_aux: "0 \<le> a \<Longrightarrow> \<forall>c \<in> set ds. isdigit c \<Longrightarrow>
    0 \<le> foldl (\<lambda>a c. a * 10 + (int (byte c) - 48)) a ds"
  by (induction ds arbitrary: a) (auto simp: isdigit_def)

lemma stoi_digits_nonneg:
  assumes "stoi (takeWhile isdigit s) = Inr p"
  shows "0 \<le> p"
proof -
  let ?ds = "takeWhile isdigit s"
  have all: "\<forall>c \<in> set ?ds. isdigit c" by (auto dest: set_takeWhileD)
  have nsp: "\<And>c. isdigit c \<Longrightarrow> \<not> isspace c" by (auto simp: isdigit_def isspace_def)
  have d1: "dropWhile isspace ?ds = ?ds"
    using all nsp by (cases ?ds) auto
  have nsign: "?ds \<noteq> [] \<Longrightarrow> hd ?ds \<noteq> CHR ''-'' \<and> hd ?ds \<noteq> CHR ''+''"
  proof -
    assume "?ds \<noteq> []"
    then have "isdigit (hd ?ds)" using all by (cases ?ds) auto
    then show ?thesis by (auto simp: isdigit_def byte_def)
  qed
  have "takeWhile isdigit ?ds = ?ds" using all by (simp add: takeWhile_eq_all_conv)
  with assms d1 nsign have "p = dec_value ?ds"
    by (auto simp: stoi_def Let_def split: if_splits)
  then show ?thesis
    using dec_value_nonneg_aux [of 0 ?ds] all by (simp add: dec_value_def)
qed


lemma bnd_InrE:
  assumes "bnd m f = Inr y"
  obtains x where "m = Inr x" and "f x = Inr y"
  using assms by (cases m) (simp_all add: bnd_def)

lemma VMessParser_parse_inv:
  assumes "VMessParser_parse L uri = Some c"
  shows "cfg_host c \<noteq> [] \<and> cfg_host c \<noteq> ''0.0.0.0'' \<and> cfg_port c \<noteq> 0 \<and> cfg_identity c \<noteq> []
   \<and> cfg_uri c = uri"
proof -
  from assms have b: "VMessParser_body L uri = Inr (Some c)"
    by (simp add: VMessParser_parse_def catch_all_Some_iff)
  show ?thesis
  proof (cases "length uri < 9")
    case True
    with b show ?thesis by (simp add: VMessParser_body_def)
  next
    case False
    with b show ?thesis
      unfolding VMessParser_body_def Let_def
      apply (simp only: if_False)
      apply (elim bnd_InrE)
      apply (simp only: split: if_splits)
       apply simp
      apply (elim bnd_InrE)
      apply auto
      done
  qed
qed


lemma ss_build_inv:
  assumes "ss_build uri ps' hostport method password = Inr (Some c)"
  shows "cfg_host c \<noteq> [] \<and> cfg_host c \<noteq> ''0.0.0.0'' \<and> 1 \<le> cfg_port c \<and> cfg_identity c \<noteq> []
   \<and> cfg_uri c = uri"
proof -
  obtain h pstr where hp: "(case rfind_char hostport (CHR '':'') of
               Some last_colon \<Rightarrow> (take last_colon hostport, drop (last_colon + 1) hostport)
             | None \<Rightarrow> (hostport, hostport)) = (h, pstr)"
    by (cases "(case rfind_char hostport (CHR '':'') of
               Some last_colon \<Rightarrow> (take last_colon hostport, drop (last_colon + 1) hostport)
             | None \<Rightarrow> (hostport, hostport))")
  show ?thesis
  proof (cases "stoi (takeWhile isdigit pstr)")
    case (Inl e)
    with assms hp show ?thesis by (simp add: ss_build_def)
  next
    case (Inr p)
    from stoi_digits_nonneg [OF Inr] have "0 \<le> p" .
    with assms hp Inr show ?thesis
      by (auto simp: ss_build_def split: if_splits)
  qed
qed

lemma ShadowsocksParser_body_build:
  assumes "ShadowsocksParser_body L uri = Inr (Some c)"
  shows "\<exists>ps' hostport method password. ss_build uri ps' hostport method password = Inr (Some c)"
proof -
  obtain ps' parsed_uri where sp: "(case str_find uri ''#'' of
               Some hash_pos \<Rightarrow>
                 (clean_ps_string (url_decode L (drop (hash_pos + 1) uri)), take hash_pos uri)
             | None \<Rightarrow> (''Unknown'', uri)) = (ps', parsed_uri)"
    by (cases "(case str_find uri ''#'' of
               Some hash_pos \<Rightarrow>
                 (clean_ps_string (url_decode L (drop (hash_pos + 1) uri)), take hash_pos uri)
             | None \<Rightarrow> (''Unknown'', uri))")
  from assms have "bnd (substr parsed_uri 5) (\<lambda>core0.
         let core1 = (case str_find core0 ''?'' of
                        Some q_pos \<Rightarrow> take q_pos core0
                      | None \<Rightarrow> core0);
             core2 = (if \<not> contains core1 ''@'' then safe_b64decode core1 else core1)
         in case str_find core2 ''@'' of
              None \<Rightarrow> Inr None
            | Some at_pos \<Rightarrow>
                (let userinfo = take at_pos core2;
                     hostport = drop (at_pos + 1) core2
                 in if \<not> contains hostport '':'' then Inr None
                    else case ss_credentials userinfo of
                           None \<Rightarrow> Inr None
                         | Some (method, password) \<Rightarrow>
                             ss_build uri ps' hostport method password)) = Inr (Some c)"
    unfolding ShadowsocksParser_body_def sp by simp
  then obtain core0 where
    "(let core1 = (case str_find core0 ''?'' of
                        Some q_pos \<Rightarrow> take q_pos core0
                      | None \<Rightarrow> core0);
             core2 = (if \<not> contains core1 ''@'' then safe_b64decode core1 else core1)
         in case str_find core2 ''@'' of
              None \<Rightarrow> Inr None
            | Some at_pos \<Rightarrow>
                (let userinfo = take at_pos core2;
                     hostport = drop (at_pos + 1) core2
                 in if \<not> contains hostport '':'' then Inr None
                    else case ss_credentials userinfo of
                           None \<Rightarrow> Inr None
                         | Some (method, password) \<Rightarrow>
                             ss_build uri ps' hostport method password)) = Inr (Some c)"
    by (rule bnd_InrE)
  then obtain core2 where c2: "(case str_find core2 ''@'' of
              None \<Rightarrow> Inr None
            | Some at_pos \<Rightarrow>
                (if \<not> contains (drop (at_pos + 1) core2) '':'' then Inr None
                    else case ss_credentials (take at_pos core2) of
                           None \<Rightarrow> Inr None
                         | Some (method, password) \<Rightarrow>
                             ss_build uri ps' (drop (at_pos + 1) core2) method password))
         = Inr (Some c)"
    by (simp only: Let_def)
  show ?thesis
  proof (cases "str_find core2 ''@''")
    case None
    with c2 show ?thesis by simp
  next
    case (Some at_pos)
    show ?thesis
    proof (cases "contains (drop (at_pos + 1) core2) '':''")
      case False
      with c2 Some show ?thesis by simp
    next
      case True
      show ?thesis
      proof (cases "ss_credentials (take at_pos core2)")
        case None
        with c2 Some True show ?thesis by simp
      next
        case cr: (Some mp)
        obtain m pw where "mp = (m, pw)" by (cases mp)
        with c2 Some True cr
        have "ss_build uri ps' (drop (at_pos + 1) core2) m pw = Inr (Some c)" by simp
        then show ?thesis by blast
      qed
    qed
  qed
qed

lemma ShadowsocksParser_parse_inv:
  assumes "ShadowsocksParser_parse L uri = Some c"
  shows "cfg_host c \<noteq> [] \<and> cfg_host c \<noteq> ''0.0.0.0'' \<and> 1 \<le> cfg_port c \<and> cfg_identity c \<noteq> []
   \<and> cfg_uri c = uri"
proof -
  from assms have "ShadowsocksParser_body L uri = Inr (Some c)"
    by (simp add: ShadowsocksParser_parse_def catch_all_Some_iff)
  from ShadowsocksParser_body_build [OF this] ss_build_inv show ?thesis by blast
qed


lemma UniversalParser_parse_cases:
  assumes "UniversalParser_parse L uri = Inr (Some c)"
  shows "VMessParser_parse L uri = Some c \<or> VLESSParser_parse L uri = Some c
       \<or> TrojanParser_parse L uri = Some c \<or> ShadowsocksParser_parse L uri = Some c"
proof (cases "str_find uri ''://''")
  case None
  with assms show ?thesis by (simp add: UniversalParser_parse_def)
next
  case (Some n)
  have "substr_n uri 0 n = Inr (take n uri)" by (simp add: substr_n_def)
  with assms Some show ?thesis
    by (simp add: UniversalParser_parse_def bnd_def Let_def split: if_splits)
qed

text \<open>
  C2 (amended): for every input URI on which the parser succeeds, whatever the library
  routines return, the \<open>ParsedConfig\<close> has a non-empty host that is not \<open>0.0.0.0\<close>, a
  non-zero port and a non-empty identity, and carries the input URI; the port is at least 1
  when the VLESS, Trojan or Shadowsocks parser produced it.
\<close>

theorem UniversalParser_parse_invariant:
  "(UniversalParser_parse L uri = Inr (Some c) \<longrightarrow>
      cfg_host c \<noteq> [] \<and> cfg_host c \<noteq> ''0.0.0.0'' \<and> cfg_port c \<noteq> 0 \<and> cfg_identity c \<noteq> []
      \<and> cfg_uri c = uri)
   \<and> (VLESSParser_parse L uri = Some c \<longrightarrow> 1 \<le> cfg_port c)
   \<and> (TrojanParser_parse L uri = Some c \<longrightarrow> 1 \<le> cfg_port c)
   \<and> (ShadowsocksParser_parse L uri = Some c \<longrightarrow> 1 \<le> cfg_port c)"
  using UniversalParser_parse_cases [of L uri c]
    VMessParser_parse_inv [of L uri c] VLESSParser_parse_inv [of L uri c]
    TrojanParser_parse_inv [of L uri c] ShadowsocksParser_parse_inv [of L uri c]
  by fastforce

text \<open>The theorem at a Trojan URI with a bracketed host.\<close>

theorem UniversalParser_parse_invariant_witness:
  "UniversalParser_parse example_lib ''trojan://pw@[::1]:8443''
     = Inr (Some \<lparr>cfg_uri = ''trojan://pw@[::1]:8443'',
                  cfg_outbound = trojan_outbound [] ''::1'' 8443 ''pw'',
                  cfg_host = ''::1'', cfg_port = 8443, cfg_identity = ''pw'',
                  cfg_ps = ''Unknown''\<rparr>)
   \<and> TrojanParser_parse example_lib ''trojan://pw@[::1]:8443''
     = Some \<lparr>cfg_uri = ''trojan://pw@[::1]:8443'',
                  cfg_outbound = trojan_outbound [] ''::1'' 8443 ''pw'',
                  cfg_host = ''::1'', cfg_port = 8443, cfg_identity = ''pw'',
                  cfg_ps = ''Unknown''\<rparr>
   \<and> (1::int) \<le> 8443"
proof -
  let ?c = "\<lparr>cfg_uri = ''trojan://pw@[::1]:8443'',
                  cfg_outbound = trojan_outbound [] ''::1'' 8443 ''pw'',
                  cfg_host = ''::1'', cfg_port = 8443, cfg_identity = ''pw'',
                  cfg_ps = ''Unknown''\<rparr>"
  have t: "TrojanParser_parse example_lib ''trojan://pw@[::1]:8443'' = Some ?c"
    by code_simp
  have u: "UniversalParser_parse example_lib ''trojan://pw@[::1]:8443'' = Inr (Some ?c)"
    by code_simp
  from UniversalParser_parse_invariant [of example_lib "''trojan://pw@[::1]:8443''" ?c] t u
  show ?thesis by simp
qed

text \<open>
  C2, as stated, bounds the port by 65535 and from below by 1. No parser checks the upper
  bound: \<open>vless://u@h:70000\<close> parses with port 70000. The VMess parser takes a negative
  JSON number as it is: the payload \<open>{"add":"h","port":-1,"id":"x"}\<close> parses with port -1.
\<close>

theorem UniversalParser_parse_port_counterexample:
  "UniversalParser_parse example_lib ''vless://u@h:70000''
     = Inr (Some \<lparr>cfg_uri = ''vless://u@h:70000'',
                  cfg_outbound = vless_outbound [] ''h'' 70000 ''u'',
                  cfg_host = ''h'', cfg_port = 70000, cfg_identity = ''u'',
                  cfg_ps = ''Unknown''\<rparr>)
   \<and> \<not> (70000::int) \<le> 65535
   \<and> map_option cfg_port (VMessParser_parse example_lib example_vmess_neg) = Some (- 1)"
  by code_simp


lemma UniversalParser_parse_returns: "\<exists>r. UniversalParser_parse L uri = Inr r"
proof (cases "str_find uri ''://''")
  case None
  then show ?thesis by (simp add: UniversalParser_parse_def)
next
  case (Some n)
  have "substr_n uri 0 n = Inr (take n uri)" by (simp add: substr_n_def)
  with Some show ?thesis
    by (simp add: UniversalParser_parse_def bnd_def Let_def)
qed

lemma UniversalParser_parse_unknown:
  assumes "str_find uri ''://'' = Some n"
    and "to_lower (take n uri) \<notin> {''vmess'', ''vless'', ''trojan'', ''ss'', ''shadowsocks''}"
  shows "UniversalParser_parse L uri = Inr None"
proof -
  have "substr_n uri 0 n = Inr (take n uri)" by (simp add: substr_n_def)
  with assms show ?thesis
    by (auto simp: UniversalParser_parse_def bnd_def Let_def)
qed

lemma VMessParser_parse_malformed_json:
  assumes "json_parse L (safe_b64decode (drop 8 uri)) = None"
  shows "VMessParser_parse L uri = None"
proof (cases "length uri < 9")
  case True
  then show ?thesis by (simp add: VMessParser_parse_def VMessParser_body_def catch_all_def)
next
  case False
  then have "substr uri 8 = Inr (drop 8 uri)" by (simp add: substr_def)
  with False assms show ?thesis
    by (simp add: VMessParser_parse_def VMessParser_body_def catch_all_def bnd_def)
qed

text \<open>
  C9: for every input string and whatever the library routines return, the universal parser
  returns (a \<open>ParsedConfig\<close> or the not-parseable signal) and does not throw; it returns
  not-parseable for the empty string, for a string without \<open>://\<close> and for an unknown
  scheme; a VMess payload that is not JSON is not parseable; and an exception inside the
  \<open>try\<close> block of a variant parser yields not-parseable.
\<close>

theorem UniversalParser_parse_total:
  "(\<exists>r. UniversalParser_parse L uri = Inr r)
   \<and> (uri = [] \<or> \<not> contains uri ''://'' \<longrightarrow> UniversalParser_parse L uri = Inr None)
   \<and> (\<forall>n. str_find uri ''://'' = Some n
          \<and> to_lower (take n uri) \<notin> {''vmess'', ''vless'', ''trojan'', ''ss'', ''shadowsocks''}
        \<longrightarrow> UniversalParser_parse L uri = Inr None)
   \<and> (json_parse L (safe_b64decode (drop 8 uri)) = None \<longrightarrow> VMessParser_parse L uri = None)
   \<and> (VMessParser_body L uri = Inl e \<longrightarrow> VMessParser_parse L uri = None)
   \<and> (VLESSParser_body L uri = Inl e \<longrightarrow> VLESSParser_parse L uri = None)
   \<and> (TrojanParser_body L uri = Inl e \<longrightarrow> TrojanParser_parse L uri = None)
   \<and> (ShadowsocksParser_body L uri = Inl e \<longrightarrow> ShadowsocksParser_parse L uri = None)"
proof -
  have a: "uri = [] \<or> \<not> contains uri ''://'' \<longrightarrow> UniversalParser_parse L uri = Inr None"
    by (auto simp: UniversalParser_parse_def contains_def)
  have b: "VMessParser_body L uri = Inl e \<longrightarrow> VMessParser_parse L uri = None"
    by (simp add: VMessParser_parse_def catch_all_def)
  have c: "VLESSParser_body L uri = Inl e \<longrightarrow> VLESSParser_parse L uri = None"
    by (simp add: VLESSParser_parse_def catch_all_def)
  have d: "TrojanParser_body L uri = Inl e \<longrightarrow> TrojanParser_parse L uri = None"
    by (simp add: TrojanParser_parse_def catch_all_def)
  have f: "ShadowsocksParser_body L uri = Inl e \<longrightarrow> ShadowsocksParser_parse L uri = None"
    by (simp add: ShadowsocksParser_parse_def catch_all_def)
  show ?thesis
    using UniversalParser_parse_returns [of L uri] a b c d f
      UniversalParser_parse_unknown [of uri _ L] VMessParser_parse_malformed_json [of L uri]
    by blast
qed

text \<open>
  The theorem at the empty string, a string without scheme separator, an unknown scheme, a
  VMess payload (\<open>{}\<close>) the example library rejects, and a Shadowsocks input whose
  \<open>substr(5)\<close> throws.
\<close>

theorem UniversalParser_parse_total_witness:
  "UniversalParser_parse example_lib [] = Inr None
   \<and> UniversalParser_parse example_lib ''no scheme'' = Inr None
   \<and> UniversalParser_parse example_lib ''http://h:80'' = Inr None
   \<and> VMessParser_body example_lib ''vmess://e30='' = Inl parse_error
   \<and> VMessParser_parse example_lib ''vmess://e30='' = None
   \<and> ShadowsocksParser_body example_lib ''ss:/'' = Inl out_of_range
   \<and> ShadowsocksParser_parse example_lib ''ss:/'' = None"
proof -
  have e1: "\<not> contains ''no scheme'' ''://''" by code_simp
  have e2: "str_find ''http://h:80'' ''://'' = Some 4" by code_simp
  have e3: "to_lower (take 4 ''http://h:80'')
              \<notin> {''vmess'', ''vless'', ''trojan'', ''ss'', ''shadowsocks''}" by code_simp
  have e4: "VMessParser_body example_lib ''vmess://e30='' = Inl parse_error" by code_simp
  have e5: "ShadowsocksParser_body example_lib ''ss:/'' = Inl out_of_range" by code_simp
  from UniversalParser_parse_total [of example_lib "[]" parse_error]
  have r1: "UniversalParser_parse example_lib [] = Inr None" by blast
  from UniversalParser_parse_total [of example_lib "''no scheme''" parse_error] e1
  have r2: "UniversalParser_parse example_lib ''no scheme'' = Inr None" by blast
  from UniversalParser_parse_total [of example_lib "''http://h:80''" parse_error] e2 e3
  have r3: "UniversalParser_parse example_lib ''http://h:80'' = Inr None" by blast
  from UniversalParser_parse_total [of example_lib "''vmess://e30=''" parse_error] e4
  have r4: "VMessParser_parse example_lib ''vmess://e30='' = None" by blast
  from UniversalParser_parse_total [of example_lib "''ss:/''" out_of_range] e5
  have r5: "ShadowsocksParser_parse example_lib ''ss:/'' = None" by blast
  from r1 r2 r3 e4 r4 e5 r5 show ?thesis by blast
qed

subsection \<open>C10: the SNI rewrite\<close>




































subsection \<open>C8: the channel scraper\<close>











subsection \<open>The order of a \<open>std::set\<close> of strings\<close>












subsection \<open>What a channel keeps\<close>




subsection \<open>The result of the scrape\<close>






subsection \<open>C5 and C6: the balancer's probe and engine handles\<close>

lemma task_induct [case_names Return Throw Atomic]:
  assumes "\<And>x. P (Return x)" and "\<And>e. P (Throw e)"
    and "\<And>f. (\<And>s. P (fst (f s))) \<Longrightarrow> P (Atomic f)"
  shows "P t"
proof (induction t)
  case (Return x)
  show ?case by (rule assms(1))
next
  case (Throw e)
  show ?case by (rule assms(2))
next
  case (Atomic f)
  show ?case
  proof (rule assms(3))
    fix s
    have "f s \<in> range f" by simp
    moreover have "fst (f s) \<in> Basic_BNFs.fsts (f s)" by (cases "f s") simp
    ultimately show "P (fst (f s))" by (rule Atomic)
  qed
qed

lemma run_Atomic: "run (Atomic f) s = run (fst (f s)) (snd (f s))"
  by (simp add: split_beta)

lemma run_tbind:
  "run (tbind t k) s =
     (case run t s of (Inl e, s') \<Rightarrow> (Inl e, s') | (Inr x, s') \<Rightarrow> run (k x) s')"
proof (induction t arbitrary: s rule: task_induct)
  case (Atomic f)
  show ?case using Atomic [of s "snd (f s)"] by (simp add: split_beta)
qed simp_all

lemma run_among_Atomic:
  "run_among (Atomic f) others s =
     (case run_among (fst (f s)) (tl others)
             (case others of [] \<Rightarrow> snd (f s) | other # rest \<Rightarrow> other (snd (f s))) of
        (res, own) \<Rightarrow> (res, drop (length (events (snd s))) (events (snd (snd (f s)))) @ own))"
  by (simp add: split_beta)

lemma live_after_append: "live_after l (xs @ ys) = live_after (live_after l xs) ys"
  by (simp add: live_after_def)

lemma at_most_one_live_append:
  "at_most_one_live l (xs @ ys) \<longleftrightarrow> at_most_one_live l xs \<and> at_most_one_live (live_after l xs) ys"
proof (induction xs arbitrary: l)
  case Nil
  show ?case by (cases ys) (auto simp: live_after_def)
next
  case (Cons x xs)
  show ?case by (auto simp: Cons.IH live_after_def)
qed

text \<open>The probe run to its end, as one expression.\<close>

lemma run_test_backend:
  "run (test_backend L H uri timeout) (b, w) =
     (case UniversalParser_parse L uri of
        Inl e \<Rightarrow> (Inl e, (b, w))
      | Inr None \<Rightarrow> (Inr None, (b, w))
      | Inr (Some p) \<Rightarrow>
          (let test_port = test_port_for L (lb_port b) uri;
               config = probe_config (cfg_outbound p) test_port
           in case start_proxy_cb H of
                None \<Rightarrow> (Inr None, (b, w))
              | Some cb \<Rightarrow>
                  (case json_dump config of
                     Inl e \<Rightarrow> (Inl e, (b, w))
                   | Inr config_str \<Rightarrow>
                       (let handle = cb (length (events w)) config_str test_port;
                            w1 = log_event (StartProxy config_str test_port handle) w
                        in if handle < 0 then (Inr None, (b, w1))
                           else
                             (let w2 = sleep_for 2000 w1;
                                  (result, w3) =
                                    (case test_url_cb H of
                                       Some tcb \<Rightarrow>
                                         (let (status_code, lat) =
                                                tcb (length (events w2)) probe_url test_port timeout
                                          in (if accepts status_code then Some lat else None,
                                              log_event (TestUrl probe_url test_port timeout) w2))
                                     | None \<Rightarrow> (None, w2));
                                  w4 = (if stop_proxy_cb H
                                        then log_event (StopProxy handle) w3 else w3)
                              in (Inr result, (b, w4)))))))"
  by (simp add: test_backend_def probe_test_def probe_stop_def run_Atomic Let_def split_beta
      split: sum.splits option.splits)


text \<open>
  C5: when the URI parses, the configuration serialises, the engine start gives a handle
  \<open>\<ge> 0\<close> and the test hook answers \<open>(status_code, lat)\<close>, the backend probe returns the
  measured latency \<open>lat\<close> if and only if \<open>status_code > 0\<close> and (\<open>status_code < 400\<close> or
  \<open>status_code = 204\<close>), and no latency for every other status. It returns no latency
  either when the URI does not parse, when the start hook or the test hook is missing, or
  when the engine does not start. The parse does not throw; the probe throws only when
  the configuration does not serialise, before it has called a hook.
\<close>

theorem test_backend_accepts:
  "(UniversalParser_parse L uri = Inr (Some p)
      \<and> start_proxy_cb H = Some scb
      \<and> json_dump (probe_config (cfg_outbound p) (test_port_for L (lb_port b) uri)) = Inr config_str
      \<and> 0 \<le> scb (length (events w)) config_str (test_port_for L (lb_port b) uri)
      \<and> test_url_cb H = Some tcb
      \<and> tcb (Suc (length (events w))) probe_url (test_port_for L (lb_port b) uri) timeout
          = (status_code, lat)
     \<longrightarrow> (\<exists>w'. run (test_backend L H uri timeout) (b, w)
            = (Inr (if status_code > 0 \<and> (status_code < 400 \<or> status_code = 204)
                    then Some lat else None), (b, w'))))
   \<and> (UniversalParser_parse L uri = Inr None \<or> start_proxy_cb H = None
     \<longrightarrow> run (test_backend L H uri timeout) (b, w) = (Inr None, (b, w)))
   \<and> (UniversalParser_parse L uri = Inr (Some p)
      \<and> start_proxy_cb H = Some scb
      \<and> json_dump (probe_config (cfg_outbound p) (test_port_for L (lb_port b) uri)) = Inr config_str
      \<and> (scb (length (events w)) config_str (test_port_for L (lb_port b) uri) < 0
         \<or> test_url_cb H = None)
     \<longrightarrow> (\<exists>w'. run (test_backend L H uri timeout) (b, w) = (Inr None, (b, w'))))
   \<and> (UniversalParser_parse L uri = Inr (Some p)
      \<and> start_proxy_cb H = Some scb
      \<and> json_dump (probe_config (cfg_outbound p) (test_port_for L (lb_port b) uri)) = Inl e
     \<longrightarrow> run (test_backend L H uri timeout) (b, w) = (Inl e, (b, w)))
   \<and> (\<exists>parsed. UniversalParser_parse L uri = Inr parsed)"
proof -
  have A: "UniversalParser_parse L uri = Inr (Some p)
      \<and> start_proxy_cb H = Some scb
      \<and> json_dump (probe_config (cfg_outbound p) (test_port_for L (lb_port b) uri)) = Inr config_str
      \<and> 0 \<le> scb (length (events w)) config_str (test_port_for L (lb_port b) uri)
      \<and> test_url_cb H = Some tcb
      \<and> tcb (Suc (length (events w))) probe_url (test_port_for L (lb_port b) uri) timeout
          = (status_code, lat)
     \<longrightarrow> (\<exists>w'. run (test_backend L H uri timeout) (b, w)
            = (Inr (if status_code > 0 \<and> (status_code < 400 \<or> status_code = 204)
                    then Some lat else None), (b, w')))"
    by (simp add: run_test_backend Let_def log_event_def sleep_for_def accepts_def)
  have B: "UniversalParser_parse L uri = Inr None \<or> start_proxy_cb H = None
     \<longrightarrow> run (test_backend L H uri timeout) (b, w) = (Inr None, (b, w))"
    using UniversalParser_parse_returns [of L uri]
    by (auto simp: run_test_backend Let_def split: option.splits)
  have C: "UniversalParser_parse L uri = Inr (Some p)
      \<and> start_proxy_cb H = Some scb
      \<and> json_dump (probe_config (cfg_outbound p) (test_port_for L (lb_port b) uri)) = Inr config_str
      \<and> (scb (length (events w)) config_str (test_port_for L (lb_port b) uri) < 0
         \<or> test_url_cb H = None)
     \<longrightarrow> (\<exists>w'. run (test_backend L H uri timeout) (b, w) = (Inr None, (b, w')))"
    by (auto simp: run_test_backend Let_def)
  have D: "UniversalParser_parse L uri = Inr (Some p)
      \<and> start_proxy_cb H = Some scb
      \<and> json_dump (probe_config (cfg_outbound p) (test_port_for L (lb_port b) uri)) = Inl e
     \<longrightarrow> run (test_backend L H uri timeout) (b, w) = (Inl e, (b, w))"
    by (simp add: run_test_backend Let_def)
  have E: "\<exists>parsed. UniversalParser_parse L uri = Inr parsed"
    using UniversalParser_parse_returns by blast
  from A B C D E show ?thesis by blast
qed

theorem test_backend_accepts_witness:
  "(\<exists>w'. run (test_backend example_lib (example_hooks True 204) ''trojan://pw@h:443'' 8)
            (example_balancer, example_world) = (Inr (Some (Finite 123)), (example_balancer, w')))
   \<and> (\<exists>w'. run (test_backend example_lib (example_hooks True 404) ''trojan://pw@h:443'' 8)
            (example_balancer, example_world) = (Inr None, (example_balancer, w')))
   \<and> (\<exists>w'. run (test_backend example_lib (example_hooks True 0) ''trojan://pw@h:443'' 8)
            (example_balancer, example_world) = (Inr None, (example_balancer, w')))
   \<and> run (test_backend example_lib (example_hooks True 204) ''http://h'' 8)
            (example_balancer, example_world) = (Inr None, (example_balancer, example_world))
   \<and> run (test_backend example_lib (example_hooks True 204) ''trojan://%ff@h:443'' 8)
            (example_balancer, example_world) = (Inl type_error, (example_balancer, example_world))"
proof -
  let ?u = "''trojan://pw@h:443''"
  let ?v = "''trojan://%ff@h:443''"
  let ?p = "\<lparr>cfg_uri = ?u, cfg_outbound = trojan_outbound [] ''h'' 443 ''pw'',
             cfg_host = ''h'', cfg_port = 443, cfg_identity = ''pw'', cfg_ps = ''Unknown''\<rparr>"
  let ?port = "test_port_for example_lib (lb_port example_balancer) ?u"
  let ?c = "probe_config (cfg_outbound ?p) ?port"
  let ?scb = "\<lambda>n (c :: json) (p :: int). int n + 7"
  have pr: "UniversalParser_parse example_lib ?u = Inr (Some ?p)" by code_simp
  have pn: "UniversalParser_parse example_lib ''http://h'' = Inr None" by code_simp
  have d: "json_dump ?c = Inr ?c" by code_simp
  have h: "start_proxy_cb (example_hooks True s) = Some ?scb"
    "test_url_cb (example_hooks True s) = Some (\<lambda>n u p t. (s, Finite 123))" for s
    by (simp_all add: example_hooks_def)
  have g: "0 \<le> ?scb (length (events example_world)) ?c ?port" by simp
  have t: "(\<lambda>n u p t. (s, Finite 123)) (Suc (length (events example_world))) probe_url ?port 8
             = (s, Finite 123)" for s :: int
    by simp
  from test_backend_accepts [where L = example_lib and H = "example_hooks True 204"
      and b = example_balancer and w = example_world and uri = ?u and timeout = 8 and p = ?p
      and scb = ?scb and config_str = ?c and tcb = "\<lambda>n u p t. (204, Finite 123)"
      and status_code = 204 and lat = "Finite 123"]
    pr d h [of 204] g t [of 204]
  have r1: "\<exists>w'. run (test_backend example_lib (example_hooks True 204) ?u 8)
            (example_balancer, example_world) = (Inr (Some (Finite 123)), (example_balancer, w'))"
    by simp
  from test_backend_accepts [where L = example_lib and H = "example_hooks True 404"
      and b = example_balancer and w = example_world and uri = ?u and timeout = 8 and p = ?p
      and scb = ?scb and config_str = ?c and tcb = "\<lambda>n u p t. (404, Finite 123)"
      and status_code = 404 and lat = "Finite 123"]
    pr d h [of 404] g t [of 404]
  have r2: "\<exists>w'. run (test_backend example_lib (example_hooks True 404) ?u 8)
            (example_balancer, example_world) = (Inr None, (example_balancer, w'))"
    by simp
  from test_backend_accepts [where L = example_lib and H = "example_hooks True 0"
      and b = example_balancer and w = example_world and uri = ?u and timeout = 8 and p = ?p
      and scb = ?scb and config_str = ?c and tcb = "\<lambda>n u p t. (0, Finite 123)"
      and status_code = 0 and lat = "Finite 123"]
    pr d h [of 0] g t [of 0]
  have r3: "\<exists>w'. run (test_backend example_lib (example_hooks True 0) ?u 8)
            (example_balancer, example_world) = (Inr None, (example_balancer, w'))"
    by simp
  from test_backend_accepts [where L = example_lib and H = "example_hooks True 204"
      and b = example_balancer and w = example_world and uri = "''http://h''" and timeout = 8] pn
  have r4: "run (test_backend example_lib (example_hooks True 204) ''http://h'' 8)
            (example_balancer, example_world) = (Inr None, (example_balancer, example_world))"
    by blast
  have "case UniversalParser_parse example_lib ?v of
          Inr (Some q) \<Rightarrow>
            json_dump (probe_config (cfg_outbound q)
              (test_port_for example_lib (lb_port example_balancer) ?v)) = Inl type_error
        | _ \<Rightarrow> False"
    by code_simp
  then obtain q where q: "UniversalParser_parse example_lib ?v = Inr (Some q)"
    "json_dump (probe_config (cfg_outbound q)
       (test_port_for example_lib (lb_port example_balancer) ?v)) = Inl type_error"
    by (auto split: sum.splits option.splits)
  from test_backend_accepts [where L = example_lib and H = "example_hooks True 204"
      and b = example_balancer and w = example_world and uri = ?v and timeout = 8 and p = q
      and scb = ?scb and e = type_error] q h [of 204]
  have r5: "run (test_backend example_lib (example_hooks True 204) ?v 8)
            (example_balancer, example_world) = (Inl type_error, (example_balancer, example_world))"
    by blast
  from r1 r2 r3 r4 r5 show ?thesis by blast
qed

lemma events_log_event: "events (log_event ev w) = events w @ [ev]"
  by (simp add: log_event_def)

lemma events_sleep_for: "events (sleep_for ms w) = events w"
  by (simp add: sleep_for_def)

lemma probe_events_live:
  assumes "probe_events True new"
  shows "live_after l new = l" and "at_most_one_live [] new"
  using assms by (auto simp: probe_events_def live_after_def)

lemma probe_events_start:
  "h < 0 \<Longrightarrow> probe_events st [StartProxy c p h]"
  by (auto simp: probe_events_def)

lemma probe_events_full:
  "0 \<le> h \<Longrightarrow> probe_events st ([StartProxy c p h] @ (if u then [TestUrl probe_url p t] else [])
      @ (if st then [StopProxy h] else []))"
  unfolding probe_events_def by blast

lemma test_backend_events:
  assumes "run (test_backend L H uri timeout) (b, w) = (r, (b', w'))"
  shows "b' = b \<and> (\<exists>new. events w' = events w @ new \<and> probe_events (stop_proxy_cb H) new
           \<and> (isl r \<longrightarrow> new = []))"
proof -
  obtain parsed where p: "UniversalParser_parse L uri = Inr parsed"
    using UniversalParser_parse_returns by blast
  show ?thesis
  proof (cases parsed)
    case None
    with assms p show ?thesis by (simp add: run_test_backend probe_events_def)
  next
    case (Some pc)
    show ?thesis
    proof (cases "start_proxy_cb H")
      case None
      with assms p Some show ?thesis
        by (auto simp: run_test_backend probe_events_def)
    next
      case scb: (Some cb)
      let ?tp = "test_port_for L (lb_port b) uri"
      show ?thesis
      proof (cases "json_dump (probe_config (cfg_outbound pc) ?tp)")
        case (Inl e)
        with assms p Some scb show ?thesis
          by (auto simp: run_test_backend probe_events_def)
      next
        case (Inr cfg)
        let ?h = "cb (length (events w)) cfg ?tp"
        show ?thesis
        proof (cases "?h < 0")
          case True
          with assms p Some scb Inr
          have "b' = b" "events w' = events w @ [StartProxy cfg ?tp ?h]" "\<not> isl r"
            by (auto simp: run_test_backend Let_def log_event_def)
          with probe_events_start [OF True] show ?thesis by blast
        next
          case False
          with assms p Some scb Inr
          have "b' = b \<and> \<not> isl r \<and> events w' = events w @ [StartProxy cfg ?tp ?h]
                  @ (if test_url_cb H \<noteq> None then [TestUrl probe_url ?tp timeout] else [])
                  @ (if stop_proxy_cb H then [StopProxy ?h] else [])"
            by (auto simp: run_test_backend Let_def log_event_def sleep_for_def
                split: option.splits prod.splits if_splits)
          then have e: "b' = b" "\<not> isl r" "events w' = events w @ ([StartProxy cfg ?tp ?h]
                  @ (if test_url_cb H \<noteq> None then [TestUrl probe_url ?tp timeout] else [])
                  @ (if stop_proxy_cb H then [StopProxy ?h] else []))"
            by simp_all
          from False have "0 \<le> ?h" by simp
          from e probe_events_full [OF this] show ?thesis by blast
        qed
      qed
    qed
  qed
qed

text \<open>The probe among other threads: the events of its own steps.\<close>

lemma probe_stop_among:
  "run_among (probe_stop H h result) others s
     = (Inr result, if stop_proxy_cb H \<and> 0 \<le> h then [StopProxy h] else [])"
  by (cases s) (simp add: probe_stop_def run_among_Atomic log_event_def)

lemma probe_test_among:
  "\<exists>u res. run_among (probe_test H p t h) others s
     = (Inr res,
        (if u then [TestUrl probe_url p t] else [])
        @ (if stop_proxy_cb H \<and> 0 \<le> h then [StopProxy h] else []))"
proof (cases s)
  case (Pair b w)
  show ?thesis
  proof (cases "test_url_cb H")
    case None
    with Pair show ?thesis
      by (intro exI [of _ False])
         (simp add: probe_test_def run_among_Atomic probe_stop_among sleep_for_def Let_def)
  next
    case (Some cb)
    with Pair show ?thesis
      by (intro exI [of _ True])
         (simp add: probe_test_def run_among_Atomic probe_stop_among sleep_for_def Let_def
           log_event_def split_beta)
  qed
qed

lemma test_backend_among:
  assumes "run_among (test_backend L H uri timeout) others s = (r, own)"
  shows "probe_events (stop_proxy_cb H) own \<and> (isl r \<longrightarrow> own = [])"
proof -
  obtain b w where s: "s = (b, w)" by (cases s)
  obtain parsed where p: "UniversalParser_parse L uri = Inr parsed"
    using UniversalParser_parse_returns by blast
  show ?thesis
  proof (cases parsed)
    case None
    with assms p s show ?thesis
      by (auto simp: test_backend_def run_among_Atomic probe_events_def)
  next
    case (Some pc)
    show ?thesis
    proof (cases "start_proxy_cb H")
      case None
      with assms p s Some show ?thesis
        by (auto simp: test_backend_def run_among_Atomic probe_events_def)
    next
      case scb: (Some cb)
      let ?tp = "test_port_for L (lb_port b) uri"
      show ?thesis
      proof (cases "json_dump (probe_config (cfg_outbound pc) ?tp)")
        case (Inl e)
        with assms p s Some scb show ?thesis
          by (auto simp: test_backend_def run_among_Atomic probe_events_def)
      next
        case (Inr cfg)
        let ?h = "cb (length (events w)) cfg ?tp"
        show ?thesis
        proof (cases "?h < 0")
          case True
          with assms p s Some scb Inr
          have "own = [StartProxy cfg ?tp ?h]" "\<not> isl r"
            by (auto simp: test_backend_def run_among_Atomic Let_def log_event_def)
          with probe_events_start [OF True] show ?thesis by simp
        next
          case False
          let ?s1 = "case others of [] \<Rightarrow> (b, log_event (StartProxy cfg ?tp ?h) w)
                     | other # rest \<Rightarrow> other (b, log_event (StartProxy cfg ?tp ?h) w)"
          from probe_test_among [of H ?tp timeout ?h "tl others" ?s1] obtain u res where
            t: "run_among (probe_test H ?tp timeout ?h) (tl others) ?s1
                  = (Inr res, (if u then [TestUrl probe_url ?tp timeout] else [])
                        @ (if stop_proxy_cb H \<and> 0 \<le> ?h then [StopProxy ?h] else []))"
            by blast
          from assms p s Some scb Inr False
          have "(case run_among (probe_test H ?tp timeout ?h) (tl others) ?s1 of
                   (res, own') \<Rightarrow> (res, [StartProxy cfg ?tp ?h] @ own')) = (r, own)"
            by (simp add: test_backend_def run_among_Atomic Let_def events_log_event)
          with t False
          have "own = [StartProxy cfg ?tp ?h] @ (if u then [TestUrl probe_url ?tp timeout] else [])
                        @ (if stop_proxy_cb H then [StopProxy ?h] else [])" "\<not> isl r"
            by auto
          moreover from False have "0 \<le> ?h" by simp
          ultimately show ?thesis using probe_events_full [of ?h "stop_proxy_cb H" cfg ?tp u timeout]
            by simp
        qed
      qed
    qed
  qed
qed

lemma write_and_start_events:
  assumes "write_and_start L H bs (b, w) = (r, (b', w'))"
  shows "(isl r \<longrightarrow> events w' = events w \<and> current_proxy_handle b' = current_proxy_handle b)
       \<and> (\<not> isl r \<longrightarrow>
            (\<exists>c. events w' = events w
                   @ (if 0 \<le> current_proxy_handle b \<and> stop_proxy_cb H
                      then [StopProxy (current_proxy_handle b)] else [])
                   @ (if start_proxy_cb H = None then []
                      else [StartProxy c (lb_port b) (current_proxy_handle b')]))
          \<and> (start_proxy_cb H = None \<longrightarrow>
                current_proxy_handle b' =
                  (if 0 \<le> current_proxy_handle b \<and> stop_proxy_cb H then - 1
                   else current_proxy_handle b)))
       \<and> running b' = running b \<and> backends b' = backends b"
proof -
  obtain made obf' where c: "create_balanced_config L b bs = (made, obf')"
    by (cases "create_balanced_config L b bs")
  show ?thesis
  proof (cases "bnd made json_dump")
    case (Inl e)
    with assms c show ?thesis by (auto simp: write_and_start_def)
  next
    case (Inr cfg)
    show ?thesis
    proof (cases "start_proxy_cb H")
      case None
      with assms c Inr show ?thesis
        by (auto simp: write_and_start_def Let_def events_log_event split: if_splits)
    next
      case (Some cb)
      with assms c Inr show ?thesis
        by (auto simp: write_and_start_def Let_def events_log_event events_sleep_for
            split: if_splits)
    qed
  qed
qed

lemma write_and_start_inv:
  assumes st: "stop_proxy_cb H"
    and r: "write_and_start L H bs (b, w) = (res, (b', w'))"
    and l: "live_after [] (events w) = held b" and a: "at_most_one_live [] (events w)"
  shows "live_after [] (events w') = held b' \<and> at_most_one_live [] (events w')"
proof (cases "isl res")
  case True
  with write_and_start_events [OF r] l a show ?thesis by (simp add: held_def)
next
  case False
  with write_and_start_events [OF r] st obtain c where
    e: "events w' = events w
          @ (if 0 \<le> current_proxy_handle b then [StopProxy (current_proxy_handle b)] else [])
          @ (if start_proxy_cb H = None then []
             else [StartProxy c (lb_port b) (current_proxy_handle b')])"
    and n: "start_proxy_cb H = None \<longrightarrow>
              current_proxy_handle b' = (if 0 \<le> current_proxy_handle b then - 1
                                         else current_proxy_handle b)"
    by auto
  from l a n show ?thesis
    unfolding e
    by (auto simp: held_def live_after_append at_most_one_live_append live_after_def)
qed

lemma probe_loop_inv:
  assumes st: "stop_proxy_cb H"
  shows "run (probe_loop L H cnt cs working) (b, w) = (r, (b', w')) \<Longrightarrow>
    live_after [] (events w) = [] \<Longrightarrow> at_most_one_live [] (events w) \<Longrightarrow>
    \<forall>x \<in> set working. healthy x \<Longrightarrow>
      live_after [] (events w') = [] \<and> at_most_one_live [] (events w')
    \<and> (\<forall>working'. r = Inr working' \<longrightarrow> (\<forall>x \<in> set working'. healthy x))
    \<and> current_proxy_handle b' = current_proxy_handle b \<and> running b' = running b
    \<and> backends b' = backends b"
proof (induction cs arbitrary: working b w)
  case Nil
  then show ?case by auto
next
  case (Cons c cs)
  show ?case
  proof (cases "int (length working) \<ge> cnt")
    case True
    with Cons.prems show ?thesis by auto
  next
    case False
    show ?thesis
    proof (cases "fst c \<in> failed_uris b")
      case True
      with False Cons.prems(1)
      have "run (probe_loop L H cnt cs working) (b, w) = (r, (b', w'))"
        by (simp add: run_Atomic)
      from Cons.IH [OF this Cons.prems(2,3,4)] show ?thesis .
    next
      case nf: False
      obtain res b1 w1 where t: "run (test_backend L H (fst c) 8) (b, w) = (res, (b1, w1))"
        by (cases "run (test_backend L H (fst c) 8) (b, w)") auto
      from test_backend_events [OF t] st obtain new where
        e: "b1 = b" "events w1 = events w @ new" "probe_events True new" by auto
      from probe_events_live [OF e(3)] Cons.prems(2,3)
      have i1: "live_after [] (events w1) = []" "at_most_one_live [] (events w1)"
        by (simp_all add: e live_after_append at_most_one_live_append)
      show ?thesis
      proof (cases res)
        case (Inl ex)
        with False nf t Cons.prems(1) have "r = Inl ex" "b' = b1" "w' = w1"
          by (simp_all add: run_Atomic run_tbind)
        with i1 e show ?thesis by simp
      next
        case (Inr found)
        show ?thesis
        proof (cases found)
          case None
          with Inr False nf t Cons.prems(1) e
          have "run (probe_loop L H cnt cs working)
                  (b\<lparr>failed_uris := insert (fst c) (failed_uris b)\<rparr>, w1) = (r, (b', w'))"
            by (simp add: run_Atomic run_tbind)
          from Cons.IH [OF this i1 Cons.prems(4)] show ?thesis by simp
        next
          case (Some v)
          let ?wk = "working @ [\<lparr>backend_uri = fst c, latency = v, healthy = True,
                                 added_at = now_ts w1\<rparr>]"
          from Some Inr False nf t Cons.prems(1) e
          have "run (probe_loop L H cnt cs ?wk) (b, w1) = (r, (b', w'))"
            by (simp add: run_Atomic run_tbind)
          moreover have "\<forall>x \<in> set ?wk. healthy x" using Cons.prems(4) by simp
          ultimately show ?thesis using Cons.IH [of ?wk b w1] i1 by blast
        qed
      qed
    qed
  qed
qed

lemma rebuild_inv:
  assumes st: "stop_proxy_cb H"
    and r: "run (rebuild L H cnt sw) (b, w) = (res, (b', w'))"
    and i: "balancer_inv (b, w)" and n: "current_proxy_handle b < 0" and ru: "running b"
  shows "balancer_inv (b', w') \<and> running b'"
proof -
  from i n have l: "live_after [] (events w) = []" and a: "at_most_one_live [] (events w)"
    by (simp_all add: balancer_inv_def held_def)
  let ?loop = "probe_loop L H cnt (sort_by_latency L (available_configs b)) []"
  obtain fr b1 w1 where f: "run ?loop (b, w) = (fr, (b1, w1))"
    by (cases "run ?loop (b, w)") auto
  from probe_loop_inv [OF st f l a]
  have p: "live_after [] (events w1) = []" "at_most_one_live [] (events w1)"
    "\<forall>working'. fr = Inr working' \<longrightarrow> (\<forall>x \<in> set working'. healthy x)"
    "current_proxy_handle b1 = current_proxy_handle b"
    "running b1 = running b" "backends b1 = backends b"
    by simp_all
  show ?thesis
  proof (cases fr)
    case (Inl e)
    with r f have "b' = b1" "w' = w1"
      by (simp_all add: rebuild_def find_working_backends_def run_Atomic run_tbind)
    with p n ru show ?thesis by (simp add: balancer_inv_def held_def)
  next
    case (Inr nb)
    show ?thesis
    proof (cases "nb = []")
      case True
      with Inr r f have "b' = b1" "w' = w1"
        by (simp_all add: rebuild_def find_working_backends_def run_Atomic run_tbind)
      with p n ru show ?thesis by (simp add: balancer_inv_def held_def)
    next
      case False
      obtain wr b2 w2 where
        ws: "write_and_start L H nb (b1\<lparr>backends := nb\<rparr>, w1) = (wr, (b2, w2))"
        by (cases "write_and_start L H nb (b1\<lparr>backends := nb\<rparr>, w1)") auto
      have h: "live_after [] (events w1) = held (b1\<lparr>backends := nb\<rparr>)"
        using p n by (simp add: held_def)
      from write_and_start_inv [OF st ws h p(2)]
      have q: "live_after [] (events w2) = held b2" "at_most_one_live [] (events w2)"
        by simp_all
      from write_and_start_events [OF ws]
      have k: "running b2 = running b1" "backends b2 = nb" by simp_all
      from Inr False r f ws
      have "w' = w2 \<and> current_proxy_handle b' = current_proxy_handle b2
            \<and> running b' = running b2 \<and> backends b' = backends b2"
        by (cases wr; cases sw)
           (auto simp: rebuild_def find_working_backends_def run_Atomic run_tbind)
      with q k p Inr False ru show ?thesis
        by (simp add: balancer_inv_def held_def)
    qed
  qed
qed

lemma balancer_inv_no_healthy:
  assumes "balancer_inv (b, w)" and "filter healthy (backends b) = []"
  shows "current_proxy_handle b < 0"
proof (rule ccontr)
  assume "\<not> current_proxy_handle b < 0"
  with assms(1) have "backends b \<noteq> []" and "\<forall>x \<in> set (backends b). healthy x"
    by (simp_all add: balancer_inv_def)
  then have "filter healthy (backends b) = backends b" by simp
  with assms(2) \<open>backends b \<noteq> []\<close> show False by simp
qed

lemma balancer_inv_frame:
  assumes "balancer_inv (b, w)"
    and "events w' = events w" and "current_proxy_handle b' = current_proxy_handle b"
    and "running b' = running b" and "backends b' = backends b"
  shows "balancer_inv (b', w')"
  using assms by (simp add: balancer_inv_def held_def)

lemma start_balancer_inv:
  assumes st: "stop_proxy_cb H"
    and r: "run (start_balancer L H cs) (b, w) = (res, (b', w'))"
    and i: "balancer_inv (b, w)"
  shows "balancer_inv (b', w')"
proof (cases "running b")
  case True
  with r i show ?thesis by (simp add: start_balancer_def run_Atomic)
next
  case False
  let ?b2 = "case cs of Some c \<Rightarrow> b\<lparr>running := True, available_configs := c\<rparr>
               | None \<Rightarrow> b\<lparr>running := True\<rparr>"
  from False i have n: "current_proxy_handle b < 0"
    by (auto simp: balancer_inv_def)
  have p: "balancer_inv (?b2, w)" "current_proxy_handle ?b2 < 0" "running ?b2"
    using i n by (auto simp: balancer_inv_def held_def split: option.splits)
  from r False have "run (rebuild L H (num_backends b) False) (?b2, w) = (res, (b', w'))"
    by (cases cs) (simp_all add: start_balancer_def run_Atomic Let_def)
  from rebuild_inv [OF st this p] show ?thesis by simp
qed

lemma health_round_inv:
  assumes st: "stop_proxy_cb H"
    and r: "run (health_round L H) (b, w) = (res, (b', w'))"
    and i: "balancer_inv (b, w)"
  shows "balancer_inv (b', w')"
proof (cases "running b")
  case False
  with r i show ?thesis by (simp add: health_round_def run_Atomic)
next
  case True
  let ?w1 = "sleep_for (health_check_interval b * 1000) w"
  let ?b1 = "b\<lparr>health_checks := health_checks b + 1\<rparr>"
  have i1: "balancer_inv (?b1, ?w1)"
    using i by (rule balancer_inv_frame) (simp_all add: events_sleep_for)
  show ?thesis
  proof (cases "filter healthy (backends b) = [] \<and> available_configs b \<noteq> []")
    case False
    with r True have "b' = ?b1" "w' = ?w1"
      by (auto simp: health_round_def run_Atomic Let_def split: if_splits)
    with i1 show ?thesis by simp
  next
    case rb: True
    then have n: "current_proxy_handle ?b1 < 0"
      using balancer_inv_no_healthy [OF i] by simp
    from r True rb
    have "run (rebuild L H (num_backends b) True) (?b1, ?w1) = (res, (b', w'))"
      by (simp add: health_round_def run_Atomic Let_def)
    from rebuild_inv [OF st this i1 n] True show ?thesis by simp
  qed
qed

lemma update_available_configs_inv:
  assumes st: "stop_proxy_cb H"
    and r: "run (update_available_configs L H cs) (b, w) = (res, (b', w'))"
    and i: "balancer_inv (b, w)"
  shows "balancer_inv (b', w')"
proof -
  let ?b1 = "b\<lparr>available_configs := cs\<rparr>"
  have i1: "balancer_inv (?b1, w)" using i by (rule balancer_inv_frame) simp_all
  show ?thesis
  proof (cases "running b \<and> backends b = []")
    case False
    with r have "b' = ?b1" "w' = w"
      by (auto simp: update_available_configs_def run_Atomic Let_def split: if_splits)
    with i1 show ?thesis by simp
  next
    case True
    then have n: "current_proxy_handle ?b1 < 0"
      using balancer_inv_no_healthy [OF i] by simp
    from r True have "run (rebuild L H (num_backends b) False) (?b1, w) = (res, (b', w'))"
      by (simp add: update_available_configs_def run_Atomic Let_def)
    from rebuild_inv [OF st this i1 n] True show ?thesis by simp
  qed
qed

lemma stop_balancer_inv:
  assumes st: "stop_proxy_cb H"
    and r: "run (stop_balancer H) (b, w) = (res, (b', w'))"
    and i: "balancer_inv (b, w)"
  shows "balancer_inv (b', w')"
  using r st i
  by (auto simp: stop_balancer_def run_Atomic balancer_inv_def held_def events_log_event
      live_after_append at_most_one_live_append live_after_def split: if_splits)

lemma run_ops_inv:
  assumes st: "stop_proxy_cb H"
  shows "balancer_inv s \<Longrightarrow> balancer_inv (run_ops L H xs s)"
proof (induction xs arbitrary: s)
  case Nil
  then show ?case by simp
next
  case (Cons x xs)
  obtain b w where s: "s = (b, w)" by (cases s)
  obtain res b1 w1 where r: "run (op_task L H x) (b, w) = (res, (b1, w1))"
    by (cases "run (op_task L H x) (b, w)") auto
  have "balancer_inv (b1, w1)"
  proof (cases x)
    case (OpStart cs)
    with r start_balancer_inv [OF st _ Cons.prems [unfolded s]] show ?thesis by simp
  next
    case OpHealthRound
    with r health_round_inv [OF st _ Cons.prems [unfolded s]] show ?thesis by simp
  next
    case (OpUpdate cs)
    with r update_available_configs_inv [OF st _ Cons.prems [unfolded s]] show ?thesis by simp
  next
    case OpStop
    with r stop_balancer_inv [OF st _ Cons.prems [unfolded s]] show ?thesis by simp
  qed
  from Cons.IH [OF this] r s show ?case by simp
qed

lemma owes_Atomic:
  "owes (Atomic f) owed \<longleftrightarrow>
     length owed \<le> 1
     \<and> (\<forall>s. \<exists>owed'. owes (fst (f s)) owed' \<and> accounted s (snd (f s)) owed owed')"
  by (simp add: split_beta)

lemma owes_length: "owes t owed \<Longrightarrow> length owed \<le> 1"
  by (cases t) (simp_all add: owes_Atomic)

lemma owes_ended: "owes t owed \<Longrightarrow> ended t \<Longrightarrow> owed = []"
  by (cases t) simp_all

lemma owes_tbind:
  assumes "owes t owed" and "\<And>x. owes (k x) []"
  shows "owes (tbind t k) owed"
  using assms(1)
proof (induction t arbitrary: owed rule: task_induct)
  case (Return x)
  with assms(2) show ?case by simp
next
  case (Throw e)
  then show ?case by simp
next
  case (Atomic f)
  show ?case
    unfolding tbind.simps owes_Atomic
  proof (intro conjI allI)
    from Atomic.prems show "length owed \<le> 1" by (simp add: owes_Atomic)
  next
    fix s
    from Atomic.prems obtain owed' where
      o: "owes (fst (f s)) owed'" "accounted s (snd (f s)) owed owed'"
      unfolding owes_Atomic by blast
    from Atomic.IH [OF o(1)] o(2)
    show "\<exists>owed'. owes (fst (map_prod (\<lambda>t. tbind t k) id (f s))) owed'
            \<and> accounted s (snd (map_prod (\<lambda>t. tbind t k) id (f s))) owed owed'"
      by (cases "f s") auto
  qed
qed

lemma accounted_same:
  assumes "events (snd s') = events (snd s)"
    and "current_proxy_handle (fst s') = current_proxy_handle (fst s)"
  shows "accounted s s' owed owed"
  unfolding accounted_def
  using assms by (intro exI [of _ "[]"]) (simp add: held_def live_after_def)

lemma mset_account_left:
  fixes A B M :: "'a multiset"
  assumes "A + B \<subseteq># M"
  shows "A \<subseteq># M"
  using assms unfolding subseteq_mset_def
  by (metis add_leD1 count_union)

lemma mset_account:
  fixes A A' B M :: "'a multiset"
  assumes "A + B \<subseteq># M"
  shows "M - (A + B) + (A' + B) = M - A + A'"
proof (rule multiset_eqI)
  fix x
  from assms have "count A x + count B x \<le> count M x"
    unfolding subseteq_mset_def by (metis count_union)
  then show "count (M - (A + B) + (A' + B)) x = count (M - A + A') x" by simp
qed

lemma accounted_events:
  assumes "events (snd s') = events (snd s) @ new"
    and "current_proxy_handle (fst s') = current_proxy_handle (fst s)"
    and "\<And>l. mset owed \<subseteq># mset l \<Longrightarrow> mset (live_after l new) = mset l - mset owed + mset owed'"
  shows "accounted s s' owed owed'"
  unfolding accounted_def
proof (intro exI [of _ new] conjI allI impI)
  show "events (snd s') = events (snd s) @ new" by (rule assms(1))
next
  fix l
  assume "mset (owed @ held (fst s)) \<subseteq># mset l"
  then have a: "mset owed + mset (held (fst s)) \<subseteq># mset l" by simp
  have h: "held (fst s') = held (fst s)" using assms(2) by (simp add: held_def)
  from assms(3) [OF mset_account_left [OF a]]
  have "mset (live_after l new) = mset l - mset owed + mset owed'" .
  with mset_account [OF a, of "mset owed'"]
  show "mset (live_after l new)
          = mset l - mset (owed @ held (fst s)) + mset (owed' @ held (fst s'))"
    unfolding h by simp
qed

lemma live_after_single: "live_after l [ev] = live_step l ev"
  by (simp add: live_after_def)

lemma owes_probe_stop:
  assumes "stop_proxy_cb H"
  shows "owes (probe_stop H h r) (if 0 \<le> h then [h] else [])"
proof (cases "0 \<le> h")
  case False
  with assms show ?thesis by (simp add: probe_stop_def)
next
  case True
  have "accounted s (fst s, log_event (StopProxy h) (snd s)) [h] []" for s
    by (rule accounted_events [where new = "[StopProxy h]"])
       (simp_all add: events_log_event live_after_single)
  with True assms show ?thesis
    by (simp add: probe_stop_def owes_Atomic split_beta)
qed

lemma owes_probe_test:
  assumes "stop_proxy_cb H" and "0 \<le> h"
  shows "owes (probe_test H p t h) [h]"
  unfolding probe_test_def owes_Atomic
proof (intro conjI allI)
  show "length [h] \<le> 1" by simp
next
  fix s :: shared
  obtain b w where s: "s = (b, w)" by (cases s)
  show "\<exists>owed'. owes (fst ((\<lambda>(b, w).
             let w2 = sleep_for 2000 w
             in case test_url_cb H of
                  None \<Rightarrow> (probe_stop H h None, b, w2)
                | Some cb \<Rightarrow>
                    let (status_code, lat) = cb (length (events w2)) probe_url p t
                    in (probe_stop H h (if accepts status_code then Some lat else None), b,
                        log_event (TestUrl probe_url p t) w2)) s)) owed'
          \<and> accounted s (snd ((\<lambda>(b, w).
             let w2 = sleep_for 2000 w
             in case test_url_cb H of
                  None \<Rightarrow> (probe_stop H h None, b, w2)
                | Some cb \<Rightarrow>
                    let (status_code, lat) = cb (length (events w2)) probe_url p t
                    in (probe_stop H h (if accepts status_code then Some lat else None), b,
                        log_event (TestUrl probe_url p t) w2)) s)) [h] owed'"
  proof (cases "test_url_cb H")
    case None
    have "accounted (b, w) (b, sleep_for 2000 w) [h] [h]"
      by (rule accounted_same) (simp_all add: events_sleep_for)
    with None s owes_probe_stop [OF assms(1), of h None] assms(2) show ?thesis
      by (intro exI [of _ "[h]"]) (simp add: Let_def)
  next
    case (Some cb)
    have "accounted (b, w) (b, log_event (TestUrl probe_url p t) (sleep_for 2000 w)) [h] [h]"
      by (rule accounted_events [where new = "[TestUrl probe_url p t]"])
         (simp_all add: events_log_event events_sleep_for live_after_single)
    with Some s owes_probe_stop [OF assms(1), of h] assms(2) show ?thesis
      by (intro exI [of _ "[h]"]) (simp add: Let_def split_beta)
  qed
qed

lemma owes_test_backend:
  assumes st: "stop_proxy_cb H"
  shows "owes (test_backend L H uri timeout) []"
proof -
  have "\<exists>owed'. owes (fst (f (b, w))) owed' \<and> accounted (b, w) (snd (f (b, w))) [] owed'"
    if f: "f = (\<lambda>(b, w).
       case UniversalParser_parse L uri of
         Inl e \<Rightarrow> (Throw e, (b, w))
       | Inr None \<Rightarrow> (Return None, (b, w))
       | Inr (Some p) \<Rightarrow>
           (let test_port = test_port_for L (lb_port b) uri;
                config = probe_config (cfg_outbound p) test_port
            in case start_proxy_cb H of
                 None \<Rightarrow> (Return None, (b, w))
               | Some cb \<Rightarrow>
                   (case json_dump config of
                      Inl e \<Rightarrow> (Throw e, (b, w))
                    | Inr config_str \<Rightarrow>
                        (let handle = cb (length (events w)) config_str test_port;
                             w1 = log_event (StartProxy config_str test_port handle) w
                         in if handle < 0 then (Return None, (b, w1))
                            else (probe_test H test_port timeout handle, (b, w1))))))"
    for f :: "shared \<Rightarrow> double option task \<times> shared" and b w
  proof -
    have same: "accounted (b, w) (b, w) [] []" by (rule accounted_same) simp_all
    show ?thesis
    proof (cases "UniversalParser_parse L uri")
      case (Inl e)
      with same show ?thesis unfolding f by (intro exI [of _ "[]"]) simp
    next
      case (Inr parsed)
      show ?thesis
      proof (cases parsed)
        case None
        with Inr same show ?thesis unfolding f by (intro exI [of _ "[]"]) simp
      next
        case (Some pc)
        show ?thesis
        proof (cases "start_proxy_cb H")
          case None
          with Inr Some same show ?thesis unfolding f by (intro exI [of _ "[]"]) simp
        next
          case scb: (Some cb)
          let ?tp = "test_port_for L (lb_port b) uri"
          show ?thesis
          proof (cases "json_dump (probe_config (cfg_outbound pc) ?tp)")
            case (Inl e)
            with Inr Some scb same show ?thesis unfolding f by (intro exI [of _ "[]"]) simp
          next
            case cf: (Inr cfg)
            let ?h = "cb (length (events w)) cfg ?tp"
            show ?thesis
            proof (cases "?h < 0")
              case True
              have "accounted (b, w) (b, log_event (StartProxy cfg ?tp ?h) w) [] []"
                using True
                by (intro accounted_events [where new = "[StartProxy cfg ?tp ?h]"])
                   (simp_all add: events_log_event live_after_single)
              with Inr Some scb cf True show ?thesis
                unfolding f by (intro exI [of _ "[]"]) (simp add: Let_def)
            next
              case False
              have "accounted (b, w) (b, log_event (StartProxy cfg ?tp ?h) w) [] [?h]"
                using False
                by (intro accounted_events [where new = "[StartProxy cfg ?tp ?h]"])
                   (simp_all add: events_log_event live_after_single)
              moreover have "owes (probe_test H ?tp timeout ?h) [?h]"
                using False by (intro owes_probe_test [OF st]) simp
              ultimately show ?thesis using Inr Some scb cf False
                unfolding f by (intro exI [of _ "[?h]"]) (simp add: Let_def)
            qed
          qed
        qed
      qed
    qed
  qed
  then show ?thesis
    unfolding test_backend_def owes_Atomic by auto
qed

declare owes.simps(3) [simp del]

lemma owes_step_same:
  assumes "\<And>s. owes (fst (f s)) []"
    and "\<And>s. events (snd (snd (f s))) = events (snd s)"
    and "\<And>s. current_proxy_handle (fst (snd (f s))) = current_proxy_handle (fst s)"
  shows "owes (Atomic f) []"
  unfolding owes_Atomic
proof (intro conjI allI)
  show "length ([] :: int list) \<le> 1" by simp
next
  fix s
  from assms(1) [of s] accounted_same [OF assms(2) [of s] assms(3) [of s], of "[]"]
  show "\<exists>owed'. owes (fst (f s)) owed' \<and> accounted s (snd (f s)) [] owed'" by blast
qed

lemma owes_probe_loop:
  assumes st: "stop_proxy_cb H"
  shows "owes (probe_loop L H cnt cs working) []"
proof (induction cs arbitrary: working)
  case Nil
  show ?case by simp
next
  case (Cons c cs)
  show ?case
  proof (cases "int (length working) \<ge> cnt")
    case True
    then show ?thesis by simp
  next
    case False
    let ?k = "\<lambda>test_result.
               case test_result of
                 Some v \<Rightarrow>
                   Atomic (\<lambda>(b, w).
                     (probe_loop L H cnt cs
                        (working @ [\<lparr>backend_uri = fst c, latency = v, healthy = True,
                                     added_at = now_ts w\<rparr>]),
                      (b, w)))
               | None \<Rightarrow>
                   Atomic (\<lambda>(b, w).
                     (probe_loop L H cnt cs working,
                      (b\<lparr>failed_uris := insert (fst c) (failed_uris b)\<rparr>, w)))"
    have k: "owes (?k test_result) []" for test_result
    proof (cases test_result)
      case None
      show ?thesis unfolding None option.case
        by (rule owes_step_same) (simp_all add: split_beta Cons.IH)
    next
      case (Some v)
      show ?thesis unfolding Some option.case
        by (rule owes_step_same) (simp_all add: split_beta Cons.IH)
    qed
    have t: "owes (tbind (test_backend L H (fst c) 8) ?k) []"
      by (rule owes_tbind [OF owes_test_backend [OF st] k])
    have "owes (Atomic (\<lambda>(b, w).
          (if fst c \<in> failed_uris b then probe_loop L H cnt cs working
           else tbind (test_backend L H (fst c) 8) ?k,
           (b, w)))) []"
      by (rule owes_step_same) (simp_all add: split_beta Cons.IH t)
    with False show ?thesis by simp
  qed
qed

lemma owes_find_working_backends:
  assumes st: "stop_proxy_cb H"
  shows "owes (find_working_backends L H cnt) []"
  unfolding find_working_backends_def
  by (rule owes_step_same) (simp_all add: split_beta owes_probe_loop [OF st])

lemma write_and_start_accounted:
  assumes st: "stop_proxy_cb H"
    and r: "write_and_start L H bs (b, w) = (res, (b', w'))"
    and that: "current_proxy_handle b0 = current_proxy_handle b"
      "current_proxy_handle b1 = current_proxy_handle b'"
  shows "accounted (b0, w) (b1, w') [] []"
proof (cases "isl res")
  case True
  with write_and_start_events [OF r] that show ?thesis
    by (intro accounted_same) simp_all
next
  case False
  with write_and_start_events [OF r] st obtain c where
    e: "events w' = events w
          @ (if 0 \<le> current_proxy_handle b then [StopProxy (current_proxy_handle b)] else [])
          @ (if start_proxy_cb H = None then []
             else [StartProxy c (lb_port b) (current_proxy_handle b')])"
    and n: "start_proxy_cb H = None \<longrightarrow>
              current_proxy_handle b' = (if 0 \<le> current_proxy_handle b then - 1
                                         else current_proxy_handle b)"
    by auto
  show ?thesis
    unfolding accounted_def
  proof (intro exI conjI allI impI)
    show "events (snd (b1, w')) = events (snd (b0, w))
          @ ((if 0 \<le> current_proxy_handle b then [StopProxy (current_proxy_handle b)] else [])
          @ (if start_proxy_cb H = None then []
             else [StartProxy c (lb_port b) (current_proxy_handle b')]))"
      using e by simp
  next
    fix l
    assume "mset ([] @ held (fst (b0, w))) \<subseteq># mset l"
    then have a: "0 \<le> current_proxy_handle b \<longrightarrow> current_proxy_handle b \<in> set l"
      using that by (auto simp: held_def)
    show "mset (live_after l
            ((if 0 \<le> current_proxy_handle b then [StopProxy (current_proxy_handle b)] else [])
             @ (if start_proxy_cb H = None then []
                else [StartProxy c (lb_port b) (current_proxy_handle b')])))
          = mset l - mset ([] @ held (fst (b0, w))) + mset ([] @ held (fst (b1, w')))"
      using a n that by (auto simp: held_def live_after_def)
  qed
qed

lemma owes_rebuild:
  assumes st: "stop_proxy_cb H"
  shows "owes (rebuild L H cnt sw) []"
  unfolding rebuild_def
proof (rule owes_tbind [OF owes_find_working_backends [OF st]])
  fix nb
  show "owes (if nb \<noteq> []
       then Atomic (\<lambda>(b, w).
              case write_and_start L H nb (b\<lparr>backends := nb\<rparr>, w) of
                (Inl e, s') \<Rightarrow> (Throw e, s')
              | (Inr ok, (b', w')) \<Rightarrow>
                  (Return (),
                   (if sw then b'\<lparr>backend_swaps := backend_swaps b' + 1\<rparr> else b', w')))
       else Return ()) []"
  proof (cases "nb = []")
    case True
    then show ?thesis by simp
  next
    case False
    have "\<exists>owed'. owes (fst (f s)) owed' \<and> accounted s (snd (f s)) [] owed'"
      if f: "f = (\<lambda>(b, w).
              case write_and_start L H nb (b\<lparr>backends := nb\<rparr>, w) of
                (Inl e, s') \<Rightarrow> (Throw e, s')
              | (Inr ok, (b', w')) \<Rightarrow>
                  (Return (),
                   (if sw then b'\<lparr>backend_swaps := backend_swaps b' + 1\<rparr> else b', w')))"
      for f :: "shared \<Rightarrow> unit task \<times> shared" and s
    proof -
      obtain b w where s: "s = (b, w)" by (cases s)
      obtain res b' w' where
        r: "write_and_start L H nb (b\<lparr>backends := nb\<rparr>, w) = (res, (b', w'))"
        by (cases "write_and_start L H nb (b\<lparr>backends := nb\<rparr>, w)") auto
      have "accounted (b, w) (if sw then b'\<lparr>backend_swaps := backend_swaps b' + 1\<rparr> else b', w') [] []"
        by (rule write_and_start_accounted [OF st r]) simp_all
      moreover have "accounted (b, w) (b', w') [] []"
        by (rule write_and_start_accounted [OF st r]) simp_all
      ultimately show ?thesis
        unfolding f s using r by (intro exI [of _ "[]"]) (cases res; simp)
    qed
    then have "owes (Atomic (\<lambda>(b, w).
              case write_and_start L H nb (b\<lparr>backends := nb\<rparr>, w) of
                (Inl e, s') \<Rightarrow> (Throw e, s')
              | (Inr ok, (b', w')) \<Rightarrow>
                  (Return (),
                   (if sw then b'\<lparr>backend_swaps := backend_swaps b' + 1\<rparr> else b', w')))) []"
      unfolding owes_Atomic by simp
    with False show ?thesis by simp
  qed
qed

lemma owes_update_available_configs:
  assumes st: "stop_proxy_cb H"
  shows "owes (update_available_configs L H cs) []"
proof -
  have a: "owes (Atomic (\<lambda>(b, w).
               (if backends b = [] then rebuild L H (num_backends b) False else Return (),
                (b, w)))) []"
    by (rule owes_step_same) (simp_all add: split_beta owes_rebuild [OF st])
  show ?thesis
    unfolding update_available_configs_def
    by (rule owes_step_same) (simp_all add: split_beta Let_def a)
qed

lemma owes_health_round:
  assumes st: "stop_proxy_cb H"
  shows "owes (health_round L H) []"
proof -
  have a: "owes (Atomic (\<lambda>(b, w).
               (if available_configs b \<noteq> [] then rebuild L H (num_backends b) True
                else Return (),
                (b, w)))) []"
    by (rule owes_step_same) (simp_all add: split_beta owes_rebuild [OF st])
  have b: "owes (Atomic (\<lambda>(b, w).
               (if healthy_count = 0
                then Atomic (\<lambda>(b, w).
                       (if available_configs b \<noteq> [] then rebuild L H (num_backends b) True
                        else Return (),
                        (b, w)))
                else Return (),
                (b\<lparr>health_checks := health_checks b + 1\<rparr>, w)))) []" for healthy_count :: int
    by (rule owes_step_same) (simp_all add: split_beta a)
  have c: "owes (Atomic (\<lambda>(b, w).
               let healthy_count = int (length (filter healthy (backends b)))
               in (Atomic (\<lambda>(b, w).
                     (if healthy_count = 0
                      then Atomic (\<lambda>(b, w).
                             (if available_configs b \<noteq> []
                              then rebuild L H (num_backends b) True
                              else Return (),
                              (b, w)))
                      else Return (),
                      (b\<lparr>health_checks := health_checks b + 1\<rparr>, w))),
                   (b, w)))) []"
  proof (rule owes_step_same)
    fix s :: shared
    show "owes (fst ((\<lambda>(b, w).
               let healthy_count = int (length (filter healthy (backends b)))
               in (Atomic (\<lambda>(b, w).
                     (if healthy_count = 0
                      then Atomic (\<lambda>(b, w).
                             (if available_configs b \<noteq> []
                              then rebuild L H (num_backends b) True
                              else Return (),
                              (b, w)))
                      else Return (),
                      (b\<lparr>health_checks := health_checks b + 1\<rparr>, w))),
                   (b, w))) s)) []"
      using b [of "int (length (filter healthy (backends (fst s))))"]
      by (simp add: split_beta Let_def)
  qed (simp_all add: split_beta Let_def)
  have d: "owes (Atomic (\<lambda>(b, w).
            let w1 = sleep_for (health_check_interval b * 1000) w
            in if \<not> running b then (Return (), (b, w1))
               else
                 (Atomic (\<lambda>(b, w).
                    let healthy_count = int (length (filter healthy (backends b)))
                    in (Atomic (\<lambda>(b, w).
                          (if healthy_count = 0
                           then Atomic (\<lambda>(b, w).
                                  (if available_configs b \<noteq> []
                                   then rebuild L H (num_backends b) True
                                   else Return (),
                                   (b, w)))
                           else Return (),
                           (b\<lparr>health_checks := health_checks b + 1\<rparr>, w))),
                        (b, w))),
                  (b, w1)))) []"
    apply (rule owes_step_same)
    subgoal using c by (simp add: split_beta Let_def)
    subgoal by (simp add: split_beta Let_def events_sleep_for)
    subgoal by (simp add: split_beta Let_def)
    done
  show ?thesis
    unfolding health_round_def
    apply (rule owes_step_same)
    subgoal using d by (simp add: split_beta Let_def)
    subgoal by (simp add: split_beta)
    subgoal by (simp add: split_beta)
    done
qed

lemma mset_concat_update:
  "i < length Ps \<Longrightarrow>
     mset (concat (Ps[i := P'])) + mset (Ps ! i) = mset (concat Ps) + mset P'"
proof (induction Ps arbitrary: i)
  case Nil
  then show ?case by simp
next
  case (Cons P Ps)
  show ?case
  proof (cases i)
    case 0
    then show ?thesis by simp
  next
    case (Suc j)
    with Cons.prems have "j < length Ps" by simp
    from Cons.IH [OF this] Suc show ?thesis by (simp add: ac_simps)
  qed
qed

lemma mset_nth_concat: "i < length Ps \<Longrightarrow> mset (Ps ! i) \<subseteq># mset (concat Ps)"
proof (induction Ps arbitrary: i)
  case Nil
  then show ?case by simp
next
  case (Cons P Ps)
  show ?case
  proof (cases i)
    case 0
    then show ?thesis by simp
  next
    case (Suc j)
    with Cons.prems have "j < length Ps" by simp
    from Cons.IH [OF this] Suc show ?thesis
      by (simp add: subset_mset.add_increasing)
  qed
qed

lemma interleave_length:
  "interleave schedule threads s = (threads', s') \<Longrightarrow> length threads' = length threads"
proof (induction schedule arbitrary: threads s)
  case Nil
  then show ?case by simp
next
  case (Cons i schedule)
  show ?case
  proof (cases "i < length threads")
    case False
    with Cons show ?thesis by simp
  next
    case True
    obtain t s1 where st: "step_thread (threads ! i) s = (t, s1)"
      by (cases "step_thread (threads ! i) s")
    with True Cons.prems have "interleave schedule (threads[i := t]) s1 = (threads', s')"
      by simp
    from Cons.IH [OF this] show ?thesis by simp
  qed
qed

lemma step_thread_owes:
  assumes o: "list_all2 owes threads Ps"
    and l: "mset (live_after [] (events w)) = mset (held b) + mset (concat Ps)"
    and i: "i < length threads"
    and s: "step_thread (threads ! i) (b, w) = (t, (b1, w1))"
  shows "\<exists>Ps1. list_all2 owes (threads[i := t]) Ps1
           \<and> mset (live_after [] (events w1)) = mset (held b1) + mset (concat Ps1)"
proof -
  from o i have oi: "owes (threads ! i) (Ps ! i)" and n: "i < length Ps"
    by (simp_all add: list_all2_conv_all_nth)
  show ?thesis
  proof (cases "threads ! i")
    case (Return x)
    with s have "t = threads ! i" "b1 = b" "w1 = w" by simp_all
    with o l show ?thesis by (intro exI [of _ Ps]) simp
  next
    case (Throw e)
    with s have "t = threads ! i" "b1 = b" "w1 = w" by simp_all
    with o l show ?thesis by (intro exI [of _ Ps]) simp
  next
    case (Atomic f)
    with s have f: "f (b, w) = (t, (b1, w1))" by simp
    from oi Atomic have "owes (Atomic f) (Ps ! i)" by simp
    then obtain owed' where
      o': "owes (fst (f (b, w))) owed'" "accounted (b, w) (snd (f (b, w))) (Ps ! i) owed'"
      unfolding owes_Atomic by blast
    from o'(2) f obtain new where
      e: "events w1 = events w @ new"
      and a: "\<And>l. mset (Ps ! i @ held b) \<subseteq># mset l \<Longrightarrow>
                mset (live_after l new) = mset l - mset (Ps ! i @ held b) + mset (owed' @ held b1)"
      unfolding accounted_def by auto
    let ?l = "live_after [] (events w)"
    have sub: "mset (Ps ! i @ held b) \<subseteq># mset ?l"
      unfolding l using mset_nth_concat [OF n]
      by (simp add: ac_simps)
    have "mset (live_after [] (events w1)) = mset (live_after ?l new)"
      by (simp add: e live_after_append)
    also have "\<dots> = mset ?l - mset (Ps ! i @ held b) + mset (owed' @ held b1)"
      by (rule a [OF sub])
    also have "\<dots> = mset (held b1) + mset (concat (Ps[i := owed']))"
    proof (rule multiset_eqI)
      fix x
      have "count (mset (concat (Ps[i := owed'])) + mset (Ps ! i)) x
              = count (mset (concat Ps) + mset owed') x"
        using mset_concat_update [OF n, of owed'] by simp
      then have c1: "count (mset (concat (Ps[i := owed']))) x + count (mset (Ps ! i)) x
              = count (mset (concat Ps)) x + count (mset owed') x"
        by simp
      have c2: "count (mset (Ps ! i)) x \<le> count (mset (concat Ps)) x"
        using mset_nth_concat [OF n] by (simp add: subseteq_mset_def)
      have "count (mset ?l - mset (Ps ! i @ held b) + mset (owed' @ held b1)) x
              = count (mset (held b)) x + count (mset (concat Ps)) x
                - (count (mset (Ps ! i)) x + count (mset (held b)) x)
                + (count (mset owed') x + count (mset (held b1)) x)"
        unfolding l by simp
      also have "\<dots> = count (mset (held b1)) x + count (mset (concat (Ps[i := owed']))) x"
        using c1 c2 by linarith
      finally show "count (mset ?l - mset (Ps ! i @ held b) + mset (owed' @ held b1)) x
              = count (mset (held b1) + mset (concat (Ps[i := owed']))) x"
        by simp
    qed
    finally have "mset (live_after [] (events w1)) = mset (held b1) + mset (concat (Ps[i := owed']))" .
    moreover have "list_all2 owes (threads[i := t]) (Ps[i := owed'])"
      using o o'(1) f by (simp add: list_all2_update_cong)
    ultimately show ?thesis by blast
  qed
qed

lemma interleave_owes:
  "list_all2 owes threads Ps \<Longrightarrow>
   mset (live_after [] (events w)) = mset (held b) + mset (concat Ps) \<Longrightarrow>
   interleave schedule threads (b, w) = (threads', (b', w')) \<Longrightarrow>
   \<exists>Ps'. list_all2 owes threads' Ps'
      \<and> mset (live_after [] (events w')) = mset (held b') + mset (concat Ps')"
proof (induction schedule arbitrary: threads Ps b w)
  case Nil
  then show ?case by auto
next
  case (Cons i schedule)
  show ?case
  proof (cases "i < length threads")
    case False
    with Cons.prems(3) have "interleave schedule threads (b, w) = (threads', (b', w'))" by simp
    from Cons.IH [OF Cons.prems(1,2) this] show ?thesis .
  next
    case True
    obtain t b1 w1 where st: "step_thread (threads ! i) (b, w) = (t, (b1, w1))"
      by (cases "step_thread (threads ! i) (b, w)") auto
    with True Cons.prems(3)
    have r: "interleave schedule (threads[i := t]) (b1, w1) = (threads', (b', w'))" by simp
    from step_thread_owes [OF Cons.prems(1,2) True st] obtain Ps1 where
      "list_all2 owes (threads[i := t]) Ps1"
      "mset (live_after [] (events w1)) = mset (held b1) + mset (concat Ps1)"
      by blast
    from Cons.IH [OF this r] show ?thesis .
  qed
qed

lemma concat_short: "\<forall>P \<in> set Ps. length P \<le> 1 \<Longrightarrow> length (concat Ps) \<le> length Ps"
  by (induction Ps) auto

lemma held_length: "length (held b) \<le> 1"
  by (simp add: held_def)

lemma mset_eq_held: "mset l = mset (held b) \<Longrightarrow> l = held b"
  by (auto simp: held_def split: if_splits)

text \<open>Side by side: the bound on the live handles, and what is live at the end.\<close>

lemma interleave_live:
  assumes o: "\<forall>t \<in> set threads. owes t []"
    and l: "live_after [] (events w) = held b"
    and r: "interleave schedule threads (b, w) = (threads', (b', w'))"
  shows "length (live_after [] (events w')) \<le> length threads + 1
       \<and> (list_all ended threads' \<longrightarrow> live_after [] (events w') = held b')"
proof -
  let ?Ps = "replicate (length threads) ([] :: int list)"
  from o have o1: "list_all2 owes threads ?Ps"
    by (simp add: list_all2_conv_all_nth)
  have l1: "mset (live_after [] (events w)) = mset (held b) + mset (concat ?Ps)"
    using l by simp
  from interleave_owes [OF o1 l1 r] obtain Ps' where
    p: "list_all2 owes threads' Ps'"
    "mset (live_after [] (events w')) = mset (held b') + mset (concat Ps')"
    by blast
  from p(1) have len: "length Ps' = length threads'" by (simp add: list_all2_lengthD)
  have short: "\<forall>P \<in> set Ps'. length P \<le> 1"
  proof
    fix P assume "P \<in> set Ps'"
    then obtain i where i: "i < length Ps'" "P = Ps' ! i" by (auto simp: in_set_conv_nth)
    with p(1) have "owes (threads' ! i) P" by (simp add: list_all2_conv_all_nth)
    then show "length P \<le> 1" by (rule owes_length)
  qed
  have "length (live_after [] (events w')) = size (mset (live_after [] (events w')))" by simp
  also have "\<dots> = length (held b') + length (concat Ps')" unfolding p(2) by simp
  also have "\<dots> \<le> 1 + length Ps'"
    using held_length [of b'] concat_short [OF short] by linarith
  finally have A: "length (live_after [] (events w')) \<le> length threads + 1"
    using len interleave_length [OF r] by simp
  have B: "list_all ended threads' \<longrightarrow> live_after [] (events w') = held b'"
  proof
    assume e: "list_all ended threads'"
    have "\<forall>P \<in> set Ps'. P = []"
    proof
      fix P assume "P \<in> set Ps'"
      then obtain i where i: "i < length Ps'" "P = Ps' ! i" by (auto simp: in_set_conv_nth)
      with p(1) have "owes (threads' ! i) P" by (simp add: list_all2_conv_all_nth)
      moreover from e i len have "ended (threads' ! i)" by (simp add: list_all_length)
      ultimately show "P = []" by (rule owes_ended)
    qed
    then have "concat Ps' = []" by simp
    with p(2) show "live_after [] (events w') = held b'" by (simp add: mset_eq_held)
  qed
  from A B show ?thesis by blast
qed

text \<open>
  C6, with the stop hook installed. A backend probe, whatever the other threads do between
  its steps, calls the start hook at most once and, when that gave a handle \<open>\<ge> 0\<close>, calls
  the stop hook for this handle exactly once, as its last call; a probe that throws has
  called no hook. A rebuild (\<open>write_and_start\<close>) stops the handle the balancer holds before
  it starts the new engine, whose handle the balancer then holds; a rebuild that throws has
  called no hook. When the operations of the balancer do not overlap, at most one handle is
  live at every point of the run and after each operation the live handles are exactly the
  handle the balancer holds. When \<open>update_available_configs\<close> and rounds of the health
  loop run side by side, there are never more live handles than threads and one, and when
  all have ended the live handles are exactly the handle the balancer holds.
\<close>

theorem balancer_handles_paired:
  "stop_proxy_cb H \<longrightarrow>
     (run_among (test_backend L H uri timeout) others s = (r, own) \<longrightarrow>
        probe_events True own \<and> (isl r \<longrightarrow> own = []))
   \<and> (write_and_start L H bs (b, w) = (res, (b1, w1)) \<longrightarrow>
        (isl res \<longrightarrow> events w1 = events w \<and> current_proxy_handle b1 = current_proxy_handle b)
      \<and> (\<not> isl res \<longrightarrow>
           (\<exists>c. events w1 = events w
                  @ (if 0 \<le> current_proxy_handle b then [StopProxy (current_proxy_handle b)] else [])
                  @ (if start_proxy_cb H = None then []
                     else [StartProxy c (lb_port b) (current_proxy_handle b1)])))
      \<and> (live_after [] (events w) = held b \<and> at_most_one_live [] (events w) \<longrightarrow>
           live_after [] (events w1) = held b1 \<and> at_most_one_live [] (events w1)))
   \<and> (run_ops L H xs (new_MultiProxyServer port n interval obf frag, \<lparr>events = [], clock_ms = now\<rparr>)
          = (b2, w2) \<longrightarrow>
        at_most_one_live [] (events w2) \<and> live_after [] (events w2) = held b2)
   \<and> ((\<forall>t \<in> set threads. t = health_round L H \<or> (\<exists>cs. t = update_available_configs L H cs))
        \<and> live_after [] (events w3) = held b3
        \<and> interleave schedule threads (b3, w3) = (threads', (b4, w4)) \<longrightarrow>
        length (live_after [] (events w4)) \<le> length threads + 1
      \<and> (list_all ended threads' \<longrightarrow> live_after [] (events w4) = held b4))"
proof
  assume st: "stop_proxy_cb H"
  have A: "run_among (test_backend L H uri timeout) others s = (r, own) \<longrightarrow>
        probe_events True own \<and> (isl r \<longrightarrow> own = [])"
    using test_backend_among [of L H uri timeout others s r own] st by simp
  have B: "write_and_start L H bs (b, w) = (res, (b1, w1)) \<longrightarrow>
        (isl res \<longrightarrow> events w1 = events w \<and> current_proxy_handle b1 = current_proxy_handle b)
      \<and> (\<not> isl res \<longrightarrow>
           (\<exists>c. events w1 = events w
                  @ (if 0 \<le> current_proxy_handle b then [StopProxy (current_proxy_handle b)] else [])
                  @ (if start_proxy_cb H = None then []
                     else [StartProxy c (lb_port b) (current_proxy_handle b1)])))
      \<and> (live_after [] (events w) = held b \<and> at_most_one_live [] (events w) \<longrightarrow>
           live_after [] (events w1) = held b1 \<and> at_most_one_live [] (events w1))"
  proof
    assume ws: "write_and_start L H bs (b, w) = (res, (b1, w1))"
    from write_and_start_events [OF ws] st
    have B1: "isl res \<longrightarrow> events w1 = events w \<and> current_proxy_handle b1 = current_proxy_handle b"
      and B2: "\<not> isl res \<longrightarrow>
           (\<exists>c. events w1 = events w
                  @ (if 0 \<le> current_proxy_handle b then [StopProxy (current_proxy_handle b)] else [])
                  @ (if start_proxy_cb H = None then []
                     else [StartProxy c (lb_port b) (current_proxy_handle b1)]))"
      by simp_all
    have B3: "live_after [] (events w) = held b \<and> at_most_one_live [] (events w) \<longrightarrow>
           live_after [] (events w1) = held b1 \<and> at_most_one_live [] (events w1)"
      using write_and_start_inv [OF st ws] by blast
    from B1 B2 B3
    show "(isl res \<longrightarrow> events w1 = events w \<and> current_proxy_handle b1 = current_proxy_handle b)
      \<and> (\<not> isl res \<longrightarrow>
           (\<exists>c. events w1 = events w
                  @ (if 0 \<le> current_proxy_handle b then [StopProxy (current_proxy_handle b)] else [])
                  @ (if start_proxy_cb H = None then []
                     else [StartProxy c (lb_port b) (current_proxy_handle b1)])))
      \<and> (live_after [] (events w) = held b \<and> at_most_one_live [] (events w) \<longrightarrow>
           live_after [] (events w1) = held b1 \<and> at_most_one_live [] (events w1))"
      by blast
  qed
  have i0: "balancer_inv (new_MultiProxyServer port n interval obf frag, \<lparr>events = [], clock_ms = now\<rparr>)"
    by (simp add: balancer_inv_def new_MultiProxyServer_def held_def live_after_def)
  have C: "run_ops L H xs (new_MultiProxyServer port n interval obf frag, \<lparr>events = [], clock_ms = now\<rparr>)
          = (b2, w2) \<longrightarrow>
        at_most_one_live [] (events w2) \<and> live_after [] (events w2) = held b2"
  proof
    assume rr: "run_ops L H xs (new_MultiProxyServer port n interval obf frag, \<lparr>events = [], clock_ms = now\<rparr>)
          = (b2, w2)"
    from run_ops_inv [OF st i0, of L xs]
    show "at_most_one_live [] (events w2) \<and> live_after [] (events w2) = held b2"
      unfolding rr by (simp add: balancer_inv_def)
  qed
  have D: "(\<forall>t \<in> set threads. t = health_round L H \<or> (\<exists>cs. t = update_available_configs L H cs))
        \<and> live_after [] (events w3) = held b3
        \<and> interleave schedule threads (b3, w3) = (threads', (b4, w4)) \<longrightarrow>
        length (live_after [] (events w4)) \<le> length threads + 1
      \<and> (list_all ended threads' \<longrightarrow> live_after [] (events w4) = held b4)"
  proof (intro impI)
    assume h: "(\<forall>t \<in> set threads. t = health_round L H \<or> (\<exists>cs. t = update_available_configs L H cs))
        \<and> live_after [] (events w3) = held b3
        \<and> interleave schedule threads (b3, w3) = (threads', (b4, w4))"
    then have "\<forall>t \<in> set threads. owes t []"
      using owes_health_round [OF st, of L] owes_update_available_configs [OF st, of L] by auto
    from interleave_live [OF this] h
    show "length (live_after [] (events w4)) \<le> length threads + 1
      \<and> (list_all ended threads' \<longrightarrow> live_after [] (events w4) = held b4)"
      by blast
  qed
  from A B C D
  show "(run_among (test_backend L H uri timeout) others s = (r, own) \<longrightarrow>
        probe_events True own \<and> (isl r \<longrightarrow> own = []))
   \<and> (write_and_start L H bs (b, w) = (res, (b1, w1)) \<longrightarrow>
        (isl res \<longrightarrow> events w1 = events w \<and> current_proxy_handle b1 = current_proxy_handle b)
      \<and> (\<not> isl res \<longrightarrow>
           (\<exists>c. events w1 = events w
                  @ (if 0 \<le> current_proxy_handle b then [StopProxy (current_proxy_handle b)] else [])
                  @ (if start_proxy_cb H = None then []
                     else [StartProxy c (lb_port b) (current_proxy_handle b1)])))
      \<and> (live_after [] (events w) = held b \<and> at_most_one_live [] (events w) \<longrightarrow>
           live_after [] (events w1) = held b1 \<and> at_most_one_live [] (events w1)))
   \<and> (run_ops L H xs (new_MultiProxyServer port n interval obf frag, \<lparr>events = [], clock_ms = now\<rparr>)
          = (b2, w2) \<longrightarrow>
        at_most_one_live [] (events w2) \<and> live_after [] (events w2) = held b2)
   \<and> ((\<forall>t \<in> set threads. t = health_round L H \<or> (\<exists>cs. t = update_available_configs L H cs))
        \<and> live_after [] (events w3) = held b3
        \<and> interleave schedule threads (b3, w3) = (threads', (b4, w4)) \<longrightarrow>
        length (live_after [] (events w4)) \<le> length threads + 1
      \<and> (list_all ended threads' \<longrightarrow> live_after [] (events w4) = held b4))"
    by (intro conjI)
qed

text \<open>
  The theorem on the example hooks: a probe during which another thread starts an engine;
  a second rebuild, which stops handle 7 before it starts handle 9; a start, a round of the
  health loop, an update and a stop one after the other; and an update beside a round of
  the health loop on a started balancer without backends, in which the handles 7 and 8 of
  the two probes are live at once and only the held handle 15 is live at the end.
\<close>

theorem balancer_handles_paired_witness:
  "stop_proxy_cb (example_hooks True 204)
   \<and> (\<exists>r own.
        run_among (test_backend example_lib (example_hooks True 204) ''trojan://pw@h:443'' 8)
          [\<lambda>s. (fst s, log_event (StartProxy JNull 0 50) (snd s))]
          (example_balancer, example_world) = (r, own)
      \<and> probe_events True own \<and> map call_of own = [Start 7, Test, Stop 7])
   \<and> (\<exists>b w res b1 w1.
        (b, w) = snd (write_and_start example_lib (example_hooks True 204)
                   [\<lparr>backend_uri = ''trojan://pw@h:443'', latency = Finite 123, healthy = True,
                     added_at = 0\<rparr>] (example_balancer, example_world))
      \<and> write_and_start example_lib (example_hooks True 204)
           [\<lparr>backend_uri = ''trojan://pw@h:443'', latency = Finite 123, healthy = True,
             added_at = 0\<rparr>] (b, w) = (res, (b1, w1))
      \<and> \<not> isl res \<and> current_proxy_handle b = 7
      \<and> live_after [] (events w) = held b \<and> at_most_one_live [] (events w)
      \<and> live_after [] (events w1) = held b1 \<and> at_most_one_live [] (events w1)
      \<and> calls (b1, w1) = [Start 7, Stop 7, Start 9] \<and> held b1 = [9])
   \<and> (\<exists>b2 w2.
        run_ops example_lib (example_hooks True 204)
          [OpStart (Some [(''trojan://pw@h:443'', Finite 1), (''http://h'', Finite 2)]),
           OpHealthRound, OpUpdate [], OpStop]
          (new_MultiProxyServer 10808 5 60 None False, \<lparr>events = [], clock_ms = 0\<rparr>) = (b2, w2)
      \<and> at_most_one_live [] (events w2) \<and> live_after [] (events w2) = held b2
      \<and> calls (b2, w2) = [Start 7, Test, Stop 7, Start 10, Stop 10])
   \<and> (\<exists>b3 w3 threads' b4 w4.
        (b3, w3) = run_ops example_lib (example_hooks True 204) [OpStart None]
                     (example_balancer, example_world)
      \<and> live_after [] (events w3) = held b3
      \<and> interleave [0, 0, 0, 0, 0, 1, 1, 1, 1, 1, 1, 1, 1, 0, 0, 0, 0, 1, 1, 1, 1]
           [update_available_configs example_lib (example_hooks True 204)
              [(''trojan://pw@h:443'', Finite 1)],
            health_round example_lib (example_hooks True 204)] (b3, w3) = (threads', (b4, w4))
      \<and> length (live_after [] (events w4)) \<le> 3
      \<and> list_all ended threads' \<and> live_after [] (events w4) = held b4 \<and> held b4 = [15]
      \<and> calls (b4, w4)
          = [Start 7, Start 8, Test, Stop 7, Start 11, Test, Stop 8, Stop 11, Start 15])"
proof -
  let ?H = "example_hooks True 204"
  let ?u = "''trojan://pw@h:443''"
  let ?bs = "[\<lparr>backend_uri = ?u, latency = Finite 123, healthy = True, added_at = 0\<rparr>]"
  let ?others = "[\<lambda>s :: shared. (fst s, log_event (StartProxy JNull 0 50) (snd s))]"
  let ?probe = "run_among (test_backend example_lib ?H ?u 8) ?others (example_balancer, example_world)"
  let ?s1 = "snd (write_and_start example_lib ?H ?bs (example_balancer, example_world))"
  let ?second = "write_and_start example_lib ?H ?bs ?s1"
  let ?ops = "[OpStart (Some [(?u, Finite 1), (''http://h'', Finite 2)]),
           OpHealthRound, OpUpdate [], OpStop]"
  let ?run = "run_ops example_lib ?H ?ops
          (new_MultiProxyServer 10808 5 60 None False, \<lparr>events = [], clock_ms = 0\<rparr>)"
  let ?s3 = "run_ops example_lib ?H [OpStart None] (example_balancer, example_world)"
  let ?sched = "[0, 0, 0, 0, 0, 1, 1, 1, 1, 1, 1, 1, 1, 0, 0, 0, 0, 1, 1, 1, 1] :: nat list"
  let ?threads = "[update_available_configs example_lib ?H [(?u, Finite 1)],
            health_round example_lib ?H]"
  let ?side = "interleave ?sched ?threads ?s3"
  have st: "stop_proxy_cb ?H" by (simp add: example_hooks_def)
  obtain r own where p: "?probe = (r, own)" by (cases ?probe)
  have "map call_of (snd ?probe) = [Start 7, Test, Stop 7]" by code_simp
  with p have pc: "map call_of own = [Start 7, Test, Stop 7]" by simp
  obtain b w where s1: "(b, w) = ?s1" by (cases ?s1) simp
  obtain res b1 w1 where ws: "write_and_start example_lib ?H ?bs (b, w) = (res, (b1, w1))"
    by (cases "write_and_start example_lib ?H ?bs (b, w)") auto
  have "\<not> isl (fst ?second) \<and> current_proxy_handle (fst ?s1) = 7
      \<and> live_after [] (events (snd ?s1)) = held (fst ?s1)
      \<and> at_most_one_live [] (events (snd ?s1))
      \<and> calls (snd ?second) = [Start 7, Stop 7, Start 9] \<and> held (fst (snd ?second)) = [9]"
    by code_simp
  with ws s1 [symmetric]
  have w2: "\<not> isl res" "current_proxy_handle b = 7" "live_after [] (events w) = held b"
    "at_most_one_live [] (events w)" "calls (b1, w1) = [Start 7, Stop 7, Start 9]"
    "held b1 = [9]"
    by simp_all
  obtain b2 w2 where rr: "?run = (b2, w2)" by (cases ?run)
  have "calls ?run = [Start 7, Test, Stop 7, Start 10, Stop 10]" by code_simp
  with rr have rc: "calls (b2, w2) = [Start 7, Test, Stop 7, Start 10, Stop 10]" by simp
  obtain b3 w3 where s3: "(b3, w3) = ?s3" by (cases ?s3) simp
  obtain threads' b4 w4 where
    si: "interleave ?sched ?threads (b3, w3) = (threads', (b4, w4))"
    by (cases "interleave ?sched ?threads (b3, w3)") auto
  have "live_after [] (events (snd ?s3)) = held (fst ?s3)
      \<and> list_all ended (fst ?side) \<and> held (fst (snd ?side)) = [15]
      \<and> calls (snd ?side)
          = [Start 7, Start 8, Test, Stop 7, Start 11, Test, Stop 8, Stop 11, Start 15]"
    by code_simp
  with si s3 [symmetric]
  have sc: "live_after [] (events w3) = held b3" "list_all ended threads'" "held b4 = [15]"
    "calls (b4, w4) = [Start 7, Start 8, Test, Stop 7, Start 11, Test, Stop 8, Stop 11, Start 15]"
    by simp_all
  have th: "\<forall>t \<in> set ?threads. t = health_round example_lib ?H
              \<or> (\<exists>cs. t = update_available_configs example_lib ?H cs)"
    by auto
  note t = balancer_handles_paired [where H = ?H and L = example_lib and uri = ?u
      and timeout = 8 and others = ?others and s = "(example_balancer, example_world)"
      and r = r and own = own and bs = ?bs and b = b and w = w and res = res and ?b1.0 = b1
      and ?w1.0 = w1 and xs = ?ops and port = 10808 and n = 5 and interval = 60 and obf = None
      and frag = False and now = 0 and ?b2.0 = b2 and ?w2.0 = w2 and threads = ?threads
      and ?b3.0 = b3 and ?w3.0 = w3 and schedule = ?sched and threads' = threads'
      and ?b4.0 = b4 and ?w4.0 = w4]
  from t st p have A: "probe_events True own" by blast
  from t st ws w2(3,4)
  have B: "live_after [] (events w1) = held b1 \<and> at_most_one_live [] (events w1)" by blast
  from t st rr
  have C: "at_most_one_live [] (events w2) \<and> live_after [] (events w2) = held b2" by blast
  from t st th sc(1) si
  have D0: "length (live_after [] (events w4)) \<le> length ?threads + 1
      \<and> (list_all ended threads' \<longrightarrow> live_after [] (events w4) = held b4)"
    by blast
  from D0 have D1: "length (live_after [] (events w4)) \<le> 3" by simp
  from D0 sc(2) have D2: "live_after [] (events w4) = held b4" by blast
  note D = D1 D2
  from p A pc have E1: "\<exists>r own. ?probe = (r, own)
      \<and> probe_events True own \<and> map call_of own = [Start 7, Test, Stop 7]"
    by (intro exI [of _ r] exI [of _ own] conjI)
  from s1 ws w2 B have E2: "\<exists>b w res b1 w1.
        (b, w) = ?s1
      \<and> write_and_start example_lib ?H ?bs (b, w) = (res, (b1, w1))
      \<and> \<not> isl res \<and> current_proxy_handle b = 7
      \<and> live_after [] (events w) = held b \<and> at_most_one_live [] (events w)
      \<and> live_after [] (events w1) = held b1 \<and> at_most_one_live [] (events w1)
      \<and> calls (b1, w1) = [Start 7, Stop 7, Start 9] \<and> held b1 = [9]"
    by (intro exI [of _ b] exI [of _ w] exI [of _ res] exI [of _ b1] exI [of _ w1] conjI)
       simp_all
  from rr C rc have E3: "\<exists>b2 w2. ?run = (b2, w2)
      \<and> at_most_one_live [] (events w2) \<and> live_after [] (events w2) = held b2
      \<and> calls (b2, w2) = [Start 7, Test, Stop 7, Start 10, Stop 10]"
    by (intro exI [of _ b2] exI [of _ w2] conjI) simp_all
  from s3 si sc D have E4: "\<exists>b3 w3 threads' b4 w4.
        (b3, w3) = ?s3
      \<and> live_after [] (events w3) = held b3
      \<and> interleave ?sched ?threads (b3, w3) = (threads', (b4, w4))
      \<and> length (live_after [] (events w4)) \<le> 3
      \<and> list_all ended threads' \<and> live_after [] (events w4) = held b4 \<and> held b4 = [15]
      \<and> calls (b4, w4)
          = [Start 7, Start 8, Test, Stop 7, Start 11, Test, Stop 8, Stop 11, Start 15]"
    by (intro exI [of _ b3] exI [of _ w3] exI [of _ threads'] exI [of _ b4] exI [of _ w4] conjI)
       simp_all
  from st E1 E2 E3 E4 show ?thesis by (intro conjI)
qed

text \<open>
  C6, as stated for every path. Without the stop hook (\<open>if (stop_proxy_cb_ && handle >= 0)\<close>)
  a probe leaves its handle 7 live. With the three hooks installed, on a started balancer
  without backends, \<open>update_available_configs\<close> and the health loop both call
  \<open>find_working_backends\<close>, which probes outside the lock: the second probe starts
  handle 8 while handle 7 of the first is live.
\<close>

theorem balancer_handles_counterexample:
  "\<not> stop_proxy_cb (example_hooks False 204)
   \<and> calls (snd (run (test_backend example_lib (example_hooks False 204) ''trojan://pw@h:443'' 8)
              (example_balancer, example_world))) = [Start 7, Test]
   \<and> live_after [] (events (snd (snd (run
        (test_backend example_lib (example_hooks False 204) ''trojan://pw@h:443'' 8)
        (example_balancer, example_world))))) = [7]
   \<and> stop_proxy_cb (example_hooks True 204)
   \<and> calls (snd (update_beside_health example_lib (example_hooks True 204)
        [(''trojan://pw@h:443'', Finite 1)] [0, 0, 0, 0, 0, 1, 1, 1, 1, 1, 1, 1, 1]
        (run_ops example_lib (example_hooks True 204) [OpStart None]
           (example_balancer, example_world)))) = [Start 7, Start 8]
   \<and> live_after [] (events (snd (snd (update_beside_health example_lib (example_hooks True 204)
        [(''trojan://pw@h:443'', Finite 1)] [0, 0, 0, 0, 0, 1, 1, 1, 1, 1, 1, 1, 1]
        (run_ops example_lib (example_hooks True 204) [OpStart None]
           (example_balancer, example_world)))))) = [8, 7]
   \<and> \<not> at_most_one_live [] (events (snd (snd (update_beside_health example_lib
        (example_hooks True 204) [(''trojan://pw@h:443'', Finite 1)]
        [0, 0, 0, 0, 0, 1, 1, 1, 1, 1, 1, 1, 1]
        (run_ops example_lib (example_hooks True 204) [OpStart None]
           (example_balancer, example_world))))))"
  by code_simp


end
